theory Spec2Isabelle
  imports Main "HOL-Library.AList"
begin

section \<open>Classes, tables and the state of the versioning manager\<close>

text \<open>
  The builder of \<^verbatim>\<open>sqlalchemy_history/builder.py\<close> works on Python class objects and
  on SQLAlchemy \<^verbatim>\<open>Table\<close> objects, both compared by identity; they are numbered here.
\<close>

type_synonym cls = nat
type_synonym table = nat

datatype error = ConfigurationError | ClassNotVersioned

text \<open>
  A version table as \<^verbatim>\<open>TableBuilder\<close> returns it: the table of the original model it was
  derived from, and the keys of its columns.
\<close>

datatype shadow_table = ShadowTable (parent_table: table) (shadow_columns: "string list")

datatype transaction_entity = TransactionEntity (tx_base: cls)

datatype version_cls =
  VersionClass (version_of: cls) (version_table: shadow_table)
    (version_tx: "transaction_entity option")

datatype mapped_property = MappedProperty (prop_key: string) (concrete_inherited: bool)

text \<open>
  Calls that leave the builder: the plugin notifications, the model and relationship
  builders, and the attribute updates of the finishing passes. They are recorded, in
  order, in the \<open>trace\<close> of the state. The two builders are constructed with the manager;
  their records keep the pending list the manager holds at that moment.
\<close>

datatype event =
    AfterBuildTxClass
  | ModelBuilderCall "cls list" cls shadow_table "transaction_entity option"
  | AfterVersionClassBuilt cls version_cls
  | AfterBuildModels
  | RelationshipBuilderCall "cls list" cls string
  | ActiveHistorySet cls string
  | ColumnAliasAdded cls string
  | AssociationProxySet cls string
  | HybridPropertySet cls string

text \<open>
  What the builder reads from its surroundings and does not change: the class hierarchy,
  the mapped tables and properties, the per-class options, and the collaborators whose
  modules are not part of \<^verbatim>\<open>builder.py\<close>. \<open>mro_tail c\<close> lists the proper ancestors of
  \<open>c\<close> in method-resolution order; \<open>manager_option c name\<close> is
  \<^verbatim>\<open>self.manager.option(cls, name)\<close>; \<open>table_builder t c inherited\<close> is
  \<^verbatim>\<open>TableBuilder(self.manager, t, model=c)(inherited)\<close>, which may raise;
  \<open>reenters ev\<close> says whether the collaborator behind \<open>ev\<close> triggers the mapper
  configuration event again, and with it a nested call of the configuration handler;
  \<open>has_versioned c\<close> is \<^verbatim>\<open>hasattr(cls, "__versioned__")\<close> and \<open>versioned_class_given c\<close>
  the truth value of \<^verbatim>\<open>cls.__versioned__.get("class")\<close>.
\<close>

record world =
  mro_tail :: "cls \<Rightarrow> cls list"
  table_of :: "cls \<Rightarrow> table"
  manager_option :: "cls \<Rightarrow> string \<Rightarrow> bool"
  table_builder :: "table \<Rightarrow> cls \<Rightarrow> shadow_table option \<Rightarrow> error + shadow_table"
  get_declarative_base :: "cls \<Rightarrow> error + cls"
  iterate_properties :: "cls \<Rightarrow> mapped_property list"
  mapper_columns :: "cls \<Rightarrow> (string \<times> string) list"
  get_association_proxies :: "cls \<Rightarrow> string list"
  get_hybrid_properties :: "cls \<Rightarrow> string list"
  reenters :: "event \<Rightarrow> bool"
  has_versioned :: "cls \<Rightarrow> bool"
  versioned_class_given :: "cls \<Rightarrow> bool"
  class_metadata :: "cls \<Rightarrow> nat"

text \<open>
  The mutable state: the fields of \<^verbatim>\<open>self.manager\<close> the builder touches (the two
  dictionaries in insertion order, as Python iterates them), the closure variable
  \<^verbatim>\<open>in_handler\<close> of \<^verbatim>\<open>prevent_reentry\<close>, and the trace.
\<close>

record state =
  pending_classes :: "cls list"
  tables :: "(cls \<times> shadow_table) list"
  version_class_map :: "(cls \<times> version_cls) list"
  transaction_cls :: "transaction_entity option"
  declarative_base :: "cls option"
  options_versioning :: bool
  options_create_models :: bool
  in_handler :: bool
  trace :: "event list"
  metadata :: "nat option"

text \<open>
  A call returns, raises (the state is left as it was at the point of failure), or, for
  the fuel-bounded handler below, runs out of fuel.
\<close>

datatype outcome = Returned state | Raised error state | OutOfFuel

text \<open>\<^verbatim>\<open>for x in xs: body\<close>, stopping at the first exception.\<close>

fun for_each :: "('a \<Rightarrow> state \<Rightarrow> outcome) \<Rightarrow> 'a list \<Rightarrow> state \<Rightarrow> outcome" where
  "for_each body [] s = Returned s"
| "for_each body (x # xs) s =
     (case body x s of
        Returned s' \<Rightarrow> for_each body xs s'
      | Raised e s' \<Rightarrow> Raised e s'
      | OutOfFuel \<Rightarrow> OutOfFuel)"

text \<open>
  \<^verbatim>\<open>inspect.getmro(c)\<close>: the class itself, then its ancestors. \<^verbatim>\<open>issubclass(c, d)\<close> for
  ordinary classes is membership of \<open>d\<close> in the method-resolution order of \<open>c\<close>.
\<close>

definition getmro :: "world \<Rightarrow> cls \<Rightarrow> cls list" where
  "getmro w c = c # mro_tail w c"

definition issubclass :: "world \<Rightarrow> cls \<Rightarrow> cls \<Rightarrow> bool" where
  "issubclass w c d = (d \<in> set (getmro w c))"

text \<open>The keys of a dictionary, in iteration order.\<close>

definition dict_keys :: "('k \<times> 'v) list \<Rightarrow> 'k list" where
  "dict_keys d = map fst d"

section \<open>Collecting the versioned classes\<close>

text \<open>
  \<^verbatim>\<open>Builder.instrument_versioned_classes\<close>, called once for every mapped class: a class
  that declares \<^verbatim>\<open>__versioned__\<close>, names no version class of its own and is not pending yet
  is appended to the pending list.
\<close>

definition instrument_versioned_classes :: "world \<Rightarrow> cls \<Rightarrow> state \<Rightarrow> state" where
  "instrument_versioned_classes w c s =
     (if \<not> options_versioning s then s
      else if has_versioned w c then
        (if \<not> versioned_class_given w c \<and> c \<notin> set (pending_classes s)
         then s\<lparr>pending_classes := pending_classes s @ [c],
                metadata := Some (class_metadata w c)\<rparr>
         else s)
      else s)"

section \<open>The closest matching table\<close>

text \<open>
  \<^verbatim>\<open>Builder.closest_matching_table\<close>: an exact match first, then the first class of the
  method-resolution order that is a key of the tables dictionary.
\<close>

definition closest_matching_table :: "world \<Rightarrow> state \<Rightarrow> cls \<Rightarrow> shadow_table option" where
  "closest_matching_table w s model =
     (if model \<in> set (dict_keys (tables s)) then map_of (tables s) model
      else
        (let subclasses = filter (\<lambda>c. issubclass w model c) (dict_keys (tables s));
             ordered_subclasses = filter (\<lambda>c. c \<in> set subclasses) (getmro w model)
         in case ordered_subclasses of
              [] \<Rightarrow> None
            | c # _ \<Rightarrow> map_of (tables s) c))"

text \<open>The same resolver with the exact-match lookup of its first two lines removed.\<close>

definition closest_matching_table_scan :: "world \<Rightarrow> state \<Rightarrow> cls \<Rightarrow> shadow_table option" where
  "closest_matching_table_scan w s model =
     (let subclasses = filter (\<lambda>c. issubclass w model c) (dict_keys (tables s));
          ordered_subclasses = filter (\<lambda>c. c \<in> set subclasses) (getmro w model)
      in case ordered_subclasses of
           [] \<Rightarrow> None
         | c # _ \<Rightarrow> map_of (tables s) c)"

section \<open>Calls that leave the builder\<close>

text \<open>Sequencing of two steps of a method body: an exception ends the body.\<close>

definition and_then :: "outcome \<Rightarrow> (state \<Rightarrow> outcome) \<Rightarrow> outcome" where
  "and_then r f =
     (case r of
        Returned s \<Rightarrow> f s
      | Raised e s \<Rightarrow> Raised e s
      | OutOfFuel \<Rightarrow> OutOfFuel)"

text \<open>
  A call to a plugin hook or to a collaborator: it is recorded, and where the world says
  so it leads to a nested call \<open>nested\<close> of the configuration handler before it returns.
\<close>

definition call_out :: "world \<Rightarrow> (state \<Rightarrow> outcome) \<Rightarrow> event \<Rightarrow> state \<Rightarrow> outcome" where
  "call_out w nested ev s =
     (let s' = s\<lparr>trace := trace s @ [ev]\<rparr>
      in if reenters w ev then nested s' else Returned s')"

text \<open>
  Modelled from the spec: \<^verbatim>\<open>version_class(model)\<close> of \<^verbatim>\<open>sqlalchemy_history.utils\<close>, which
  is not among the sources. It answers the question what the version class of a model
  is from the manager's \<^verbatim>\<open>version_class_map\<close>, and raises \<^verbatim>\<open>ClassNotVersioned\<close> for a
  model that has none.
\<close>

definition version_class :: "state \<Rightarrow> cls \<Rightarrow> error + version_cls" where
  "version_class s model =
     (case map_of (version_class_map s) model of
        None \<Rightarrow> Inl ClassNotVersioned
      | Some v \<Rightarrow> Inr v)"

section \<open>Building the version tables\<close>

text \<open>
  One round of the loop of \<^verbatim>\<open>Builder.build_tables\<close>. The inner loop stops at the first
  key \<^verbatim>\<open>class_\<close> of the tables dictionary that is a superclass of \<^verbatim>\<open>cls\<close> with the same
  table; the new table is then stored under that key, and under \<^verbatim>\<open>cls\<close> when there is
  none. Assigning to a key the dictionary has keeps its position, a new key goes last.
\<close>

definition build_tables_body :: "world \<Rightarrow> cls \<Rightarrow> state \<Rightarrow> outcome" where
  "build_tables_body w c s =
     (if \<not> manager_option w c ''versioning'' then Returned s
      else if manager_option w c ''create_tables'' then
        (case find (\<lambda>klass. issubclass w c klass \<and> table_of w c = table_of w klass)
                (dict_keys (tables s)) of
           Some klass \<Rightarrow>
             (case table_builder w (table_of w c) c (map_of (tables s) klass) of
                Inl e \<Rightarrow> Raised e s
              | Inr t \<Rightarrow> Returned (s\<lparr>tables := AList.update klass t (tables s)\<rparr>))
         | None \<Rightarrow>
             (case table_builder w (table_of w c) c None of
                Inl e \<Rightarrow> Raised e s
              | Inr t \<Rightarrow> Returned (s\<lparr>tables := AList.update c t (tables s)\<rparr>)))
      else Returned s)"

definition build_tables :: "world \<Rightarrow> state \<Rightarrow> outcome" where
  "build_tables w s = for_each (build_tables_body w) (pending_classes s) s"

section \<open>Building the version models\<close>

text \<open>
  Modelled from the spec: \<^verbatim>\<open>ModelBuilder(self.manager, cls)(table, transaction_cls)\<close>, whose
  module \<^verbatim>\<open>model_builder.py\<close> is not among the sources. It constructs the version class
  over the table, bound to the transaction class, and registers it in the manager's
  \<^verbatim>\<open>version_class_map\<close> before it returns.
\<close>

definition model_builder :: "world \<Rightarrow> (state \<Rightarrow> outcome) \<Rightarrow> cls \<Rightarrow> shadow_table \<Rightarrow> state \<Rightarrow> outcome" where
  "model_builder w nested c t s =
     call_out w nested (ModelBuilderCall (pending_classes s) c t (transaction_cls s))
       (s\<lparr>version_class_map :=
            AList.update c (VersionClass c t (transaction_cls s)) (version_class_map s)\<rparr>)"

definition build_models_body :: "world \<Rightarrow> (state \<Rightarrow> outcome) \<Rightarrow> cls \<Rightarrow> state \<Rightarrow> outcome" where
  "build_models_body w nested c s =
     (if \<not> manager_option w c ''versioning'' then Returned s
      else case closest_matching_table w s c of
             None \<Rightarrow> Returned s
           | Some t \<Rightarrow>
               (let version_cls = VersionClass c t (transaction_cls s)
                in and_then (model_builder w nested c t s)
                     (call_out w nested (AfterVersionClassBuilt c version_cls))))"

definition build_models :: "world \<Rightarrow> (state \<Rightarrow> outcome) \<Rightarrow> state \<Rightarrow> outcome" where
  "build_models w nested s =
     (if pending_classes s \<noteq> [] then
        and_then (for_each (build_models_body w nested) (pending_classes s) s)
          (call_out w nested AfterBuildModels)
      else Returned s)"

section \<open>Building the relationships\<close>

text \<open>
  Modelled from the spec: \<^verbatim>\<open>RelationshipBuilder(self.manager, cls, prop)()\<close>, whose module
  \<^verbatim>\<open>relationship_builder.py\<close> is not among the sources. The call attaches the mirrored
  relationship to the version class of \<^verbatim>\<open>cls\<close>, which it looks up first: for a class
  without a version class the call raises \<^verbatim>\<open>ClassNotVersioned\<close>.
\<close>

definition relationship_builder :: "world \<Rightarrow> (state \<Rightarrow> outcome) \<Rightarrow> cls \<Rightarrow> string \<Rightarrow> state \<Rightarrow> outcome" where
  "relationship_builder w nested c k s =
     (case version_class s c of
        Inl e \<Rightarrow> Raised e (s\<lparr>trace := trace s @ [RelationshipBuilderCall (pending_classes s) c k]\<rparr>)
      | Inr v \<Rightarrow> call_out w nested (RelationshipBuilderCall (pending_classes s) c k) s)"

text \<open>
  \<^verbatim>\<open>Builder.build_relationships\<close>: for every class with versioning enabled, one call of
  the relationship builder for each mapped property whose key is not \<^verbatim>\<open>versions\<close>; an
  exception of the relationship builder ends both loops.
\<close>

definition build_relationships_prop :: "world \<Rightarrow> (state \<Rightarrow> outcome) \<Rightarrow> cls \<Rightarrow> mapped_property \<Rightarrow> state \<Rightarrow> outcome" where
  "build_relationships_prop w nested c prop s =
     (if prop_key prop = ''versions'' then Returned s
      else relationship_builder w nested c (prop_key prop) s)"

definition build_relationships_body :: "world \<Rightarrow> (state \<Rightarrow> outcome) \<Rightarrow> cls \<Rightarrow> state \<Rightarrow> outcome" where
  "build_relationships_body w nested c s =
     (if \<not> manager_option w c ''versioning'' then Returned s
      else for_each (build_relationships_prop w nested c) (iterate_properties w c) s)"

definition build_relationships :: "world \<Rightarrow> (state \<Rightarrow> outcome) \<Rightarrow> cls list \<Rightarrow> state \<Rightarrow> outcome" where
  "build_relationships w nested version_classes s =
     for_each (build_relationships_body w nested) version_classes s"

section \<open>Building the transaction class\<close>

text \<open>
  Modelled from the spec: \<^verbatim>\<open>self.manager.create_transaction_model()\<close>, a method of the
  manager, whose module is not among the sources. If a transaction class already exists
  it does nothing; otherwise it constructs the transaction class from the declarative
  base the builder has just stored.
\<close>

definition create_transaction_model :: "state \<Rightarrow> state" where
  "create_transaction_model s =
     (case transaction_cls s of
        Some tx \<Rightarrow> s
      | None \<Rightarrow>
          (case declarative_base s of
             None \<Rightarrow> s
           | Some b \<Rightarrow> s\<lparr>transaction_cls := Some (TransactionEntity b)\<rparr>))"

definition build_transaction_class :: "world \<Rightarrow> (state \<Rightarrow> outcome) \<Rightarrow> state \<Rightarrow> outcome" where
  "build_transaction_class w nested s =
     (case pending_classes s of
        [] \<Rightarrow> Returned s
      | c # _ \<Rightarrow>
          (case get_declarative_base w c of
             Inl e \<Rightarrow> Raised e s
           | Inr b \<Rightarrow>
               call_out w nested AfterBuildTxClass
                 (create_transaction_model (s\<lparr>declarative_base := Some b\<rparr>))))"

section \<open>The finishing passes\<close>

definition enable_active_history_prop :: "world \<Rightarrow> (state \<Rightarrow> outcome) \<Rightarrow> cls \<Rightarrow> mapped_property \<Rightarrow> state \<Rightarrow> outcome" where
  "enable_active_history_prop w nested c prop s =
     (if concrete_inherited prop then Returned s
      else call_out w nested (ActiveHistorySet c (prop_key prop)) s)"

definition enable_active_history :: "world \<Rightarrow> (state \<Rightarrow> outcome) \<Rightarrow> cls list \<Rightarrow> state \<Rightarrow> outcome" where
  "enable_active_history w nested version_classes s =
     for_each (\<lambda>c. for_each (enable_active_history_prop w nested c) (iterate_properties w c))
       version_classes s"

definition create_column_aliases_column :: "world \<Rightarrow> (state \<Rightarrow> outcome) \<Rightarrow> cls \<Rightarrow> version_cls \<Rightarrow> string \<times> string \<Rightarrow> state \<Rightarrow> outcome" where
  "create_column_aliases_column w nested c version_cls kc s =
     (if fst kc \<noteq> snd kc then
        (if snd kc \<in> set (shadow_columns (version_table version_cls))
         then call_out w nested (ColumnAliasAdded c (fst kc)) s
         else Returned s)
      else Returned s)"

definition create_column_aliases_body :: "world \<Rightarrow> (state \<Rightarrow> outcome) \<Rightarrow> cls \<Rightarrow> state \<Rightarrow> outcome" where
  "create_column_aliases_body w nested c s =
     (case map_of (version_class_map s) c of
        None \<Rightarrow> Returned s
      | Some version_cls \<Rightarrow>
          for_each (create_column_aliases_column w nested c version_cls) (mapper_columns w c) s)"

definition create_column_aliases :: "world \<Rightarrow> (state \<Rightarrow> outcome) \<Rightarrow> cls list \<Rightarrow> state \<Rightarrow> outcome" where
  "create_column_aliases w nested version_classes s =
     for_each (create_column_aliases_body w nested) version_classes s"

text \<open>
  \<^verbatim>\<open>create_association_proxies\<close> and \<^verbatim>\<open>create_hybrid_properties\<close> look the version class
  of the model up, with \<^verbatim>\<open>version_class\<close>, once for every proxy or hybrid property they
  copy, and set the attribute on it.
\<close>

definition create_association_proxies_key :: "world \<Rightarrow> (state \<Rightarrow> outcome) \<Rightarrow> cls \<Rightarrow> string \<Rightarrow> state \<Rightarrow> outcome" where
  "create_association_proxies_key w nested c k s =
     (case version_class s c of
        Inl e \<Rightarrow> Raised e s
      | Inr versioned_target_class \<Rightarrow> call_out w nested (AssociationProxySet c k) s)"

definition create_association_proxies :: "world \<Rightarrow> (state \<Rightarrow> outcome) \<Rightarrow> cls list \<Rightarrow> state \<Rightarrow> outcome" where
  "create_association_proxies w nested version_classes s =
     for_each (\<lambda>c. for_each (create_association_proxies_key w nested c)
                       (get_association_proxies w c))
       version_classes s"

definition create_hybrid_properties_key :: "world \<Rightarrow> (state \<Rightarrow> outcome) \<Rightarrow> cls \<Rightarrow> string \<Rightarrow> state \<Rightarrow> outcome" where
  "create_hybrid_properties_key w nested c k s =
     (case version_class s c of
        Inl e \<Rightarrow> Raised e s
      | Inr versioned_target_class \<Rightarrow> call_out w nested (HybridPropertySet c k) s)"

definition create_hybrid_properties :: "world \<Rightarrow> (state \<Rightarrow> outcome) \<Rightarrow> cls list \<Rightarrow> state \<Rightarrow> outcome" where
  "create_hybrid_properties w nested version_classes s =
     for_each (\<lambda>c. for_each (create_hybrid_properties_key w nested c)
                       (get_hybrid_properties w c))
       version_classes s"

section \<open>The configuration handler and its reentry guard\<close>

text \<open>
  The body of \<^verbatim>\<open>Builder.configure_versioned_classes\<close>, without its decorator; \<open>nested\<close>
  is what a call of the decorated handler from inside a collaborator does.
\<close>

definition configure_versioned_classes :: "world \<Rightarrow> (state \<Rightarrow> outcome) \<Rightarrow> state \<Rightarrow> outcome" where
  "configure_versioned_classes w nested s =
     (if \<not> options_versioning s then Returned s
      else
        and_then (build_tables w s) (\<lambda>s1.
        and_then (build_transaction_class w nested s1) (\<lambda>s2.
          if \<not> options_create_models s2 then Returned (s2\<lparr>pending_classes := []\<rparr>)
          else
            and_then (build_models w nested s2) (\<lambda>s3.
              let pending_classes_copies = pending_classes s3;
                  s4 = s3\<lparr>pending_classes := []\<rparr>
              in and_then (build_relationships w nested pending_classes_copies s4) (\<lambda>s5.
                 and_then (enable_active_history w nested pending_classes_copies s5) (\<lambda>s6.
                 and_then (create_column_aliases w nested pending_classes_copies s6) (\<lambda>s7.
                 and_then (create_association_proxies w nested pending_classes_copies s7)
                   (create_hybrid_properties w nested pending_classes_copies))))))))"

text \<open>
  \<^verbatim>\<open>prevent_reentry\<close>: the wrapper \<^verbatim>\<open>check_reentry\<close> around a handler. The flag is set
  before the handler runs and cleared after it has returned; there is no
  \<^verbatim>\<open>try\<close>/\<^verbatim>\<open>finally\<close>, so an exception of the handler leaves the wrapper before the flag
  is cleared.
\<close>

definition prevent_reentry :: "(state \<Rightarrow> outcome) \<Rightarrow> state \<Rightarrow> outcome" where
  "prevent_reentry handler s =
     (if in_handler s then Returned s
      else
        (case handler (s\<lparr>in_handler := True\<rparr>) of
           Returned s' \<Rightarrow> Returned (s'\<lparr>in_handler := False\<rparr>)
         | Raised e s' \<Rightarrow> Raised e s'
         | OutOfFuel \<Rightarrow> OutOfFuel))"

text \<open>
  The decorated handler, as the mapper configuration event calls it. A collaborator may
  call it again while it runs, so the definition is recursive; the fuel bounds the depth
  of such calls.
\<close>

primrec orchestrator :: "world \<Rightarrow> nat \<Rightarrow> state \<Rightarrow> outcome" where
  "orchestrator w 0 s = OutOfFuel"
| "orchestrator w (Suc n) s =
     prevent_reentry (configure_versioned_classes w (orchestrator w n)) s"

section \<open>A small model hierarchy\<close>

text \<open>
  A hierarchy to run the builder on: \<open>Article\<close> (class 0), its subclasses \<open>BlogArticle\<close>
  (class 1) and \<open>NewsArticle\<close> (class 3) mapped to the same table, and \<open>User\<close> (class 2)
  with a table of its own. Every class has versioning and table creation enabled, each
  has the mapped properties \<^verbatim>\<open>id\<close>, \<^verbatim>\<open>transaction\<close> and \<^verbatim>\<open>versions\<close>, and every
  collaborator triggers the mapper configuration event again.
\<close>

definition blog_world :: world where
  "blog_world =
     \<lparr> mro_tail = (\<lambda>c. if c = 1 \<or> c = 3 then [0] else []),
       table_of = (\<lambda>c. if c = 2 then 1 else 0),
       manager_option = (\<lambda>c name. True),
       table_builder = (\<lambda>t c inherited.
          Inr (ShadowTable t [''id'', ''transaction_id'', ''operation_type''])),
       get_declarative_base = (\<lambda>c. Inr 9),
       iterate_properties = (\<lambda>c.
          [MappedProperty ''id'' False, MappedProperty ''transaction'' False,
           MappedProperty ''versions'' False]),
       mapper_columns = (\<lambda>c. [(''id'', ''id'')]),
       get_association_proxies = (\<lambda>c. []),
       get_hybrid_properties = (\<lambda>c. []),
       reenters = (\<lambda>ev. True),
       has_versioned = (\<lambda>c. True),
       versioned_class_given = (\<lambda>c. False),
       class_metadata = (\<lambda>c. 0) \<rparr>"

text \<open>The same hierarchy with a table builder that rejects every table.\<close>

definition broken_world :: world where
  "broken_world = blog_world\<lparr>table_builder := (\<lambda>t c inherited. Inl ConfigurationError)\<rparr>"

text \<open>The manager before anything was configured, with the given pending classes.\<close>

definition fresh_state :: "cls list \<Rightarrow> state" where
  "fresh_state pending =
     \<lparr> pending_classes = pending, tables = [], version_class_map = [],
       transaction_cls = None, declarative_base = None,
       options_versioning = True, options_create_models = True,
       in_handler = False, trace = [], metadata = None \<rparr>"

text \<open>A manager that holds the version table of \<open>Article\<close> only.\<close>

definition article_table :: shadow_table where
  "article_table = ShadowTable 0 [''id'', ''transaction_id'', ''operation_type'']"

definition article_state :: state where
  "article_state = (fresh_state [])\<lparr>tables := [(0, article_table)]\<rparr>"

section \<open>What a pass calls, listed\<close>

text \<open>
  The calls a class gives rise to in each loop of the handler, as lists; the theorems
  below compare the trace of the handler with them.
\<close>

definition model_calls :: "world \<Rightarrow> state \<Rightarrow> cls \<Rightarrow> event list" where
  "model_calls w s c =
     (if manager_option w c ''versioning'' then
        (case closest_matching_table w s c of
           None \<Rightarrow> []
         | Some t \<Rightarrow>
             [ModelBuilderCall (pending_classes s) c t (transaction_cls s),
              AfterVersionClassBuilt c (VersionClass c t (transaction_cls s))])
      else [])"

fun registered_models ::
  "world \<Rightarrow> state \<Rightarrow> cls list \<Rightarrow> (cls \<times> version_cls) list \<Rightarrow> (cls \<times> version_cls) list" where
  "registered_models w s [] m = m"
| "registered_models w s (c # cs) m =
     registered_models w s cs
       (if manager_option w c ''versioning'' then
          (case closest_matching_table w s c of
             None \<Rightarrow> m
           | Some t \<Rightarrow> AList.update c (VersionClass c t (transaction_cls s)) m)
        else m)"

definition relationship_calls :: "world \<Rightarrow> cls list \<Rightarrow> cls \<Rightarrow> event list" where
  "relationship_calls w pending c =
     (if manager_option w c ''versioning'' then
        map (RelationshipBuilderCall pending c)
          (filter (\<lambda>k. k \<noteq> ''versions'') (map prop_key (iterate_properties w c)))
      else [])"

definition active_history_calls :: "world \<Rightarrow> cls \<Rightarrow> event list" where
  "active_history_calls w c =
     map (\<lambda>p. ActiveHistorySet c (prop_key p))
       (filter (\<lambda>p. \<not> concrete_inherited p) (iterate_properties w c))"

definition column_alias_calls :: "world \<Rightarrow> (cls \<times> version_cls) list \<Rightarrow> cls \<Rightarrow> event list" where
  "column_alias_calls w vcm c =
     (case map_of vcm c of
        None \<Rightarrow> []
      | Some v \<Rightarrow>
          map (\<lambda>kc. ColumnAliasAdded c (fst kc))
            (filter (\<lambda>kc. fst kc \<noteq> snd kc \<and> snd kc \<in> set (shadow_columns (version_table v)))
               (mapper_columns w c)))"

definition association_proxy_calls :: "world \<Rightarrow> cls \<Rightarrow> event list" where
  "association_proxy_calls w c = map (AssociationProxySet c) (get_association_proxies w c)"

definition hybrid_property_calls :: "world \<Rightarrow> cls \<Rightarrow> event list" where
  "hybrid_property_calls w c = map (HybridPropertySet c) (get_hybrid_properties w c)"

text \<open>
  The second half of the handler, named for the proofs: the four finishing passes over
  the copied list, and everything from \<^verbatim>\<open>build_models\<close> on.
\<close>

definition finishing_passes :: "world \<Rightarrow> (state \<Rightarrow> outcome) \<Rightarrow> cls list \<Rightarrow> state \<Rightarrow> outcome" where
  "finishing_passes w nested cs s =
     and_then (enable_active_history w nested cs s) (\<lambda>s6.
     and_then (create_column_aliases w nested cs s6) (\<lambda>s7.
     and_then (create_association_proxies w nested cs s7)
       (create_hybrid_properties w nested cs)))"

definition models_and_relationships :: "world \<Rightarrow> (state \<Rightarrow> outcome) \<Rightarrow> state \<Rightarrow> outcome" where
  "models_and_relationships w nested s =
     and_then (build_models w nested s) (\<lambda>s3.
     and_then (build_relationships w nested (pending_classes s3) (s3\<lparr>pending_classes := []\<rparr>))
       (finishing_passes w nested (pending_classes s3)))"

text \<open>
  The class a call of the model builder constructs a version class for, the class a
  post-build notification is about, and the pending list the manager held when one of
  the two builders was called.
\<close>

fun built_class :: "event \<Rightarrow> cls option" where
  "built_class (ModelBuilderCall pending c t tx) = Some c"
| "built_class _ = None"

fun pending_seen :: "event \<Rightarrow> cls list option" where
  "pending_seen (ModelBuilderCall pending c t tx) = Some pending"
| "pending_seen (RelationshipBuilderCall pending c k) = Some pending"
| "pending_seen _ = None"

fun notified_class :: "event \<Rightarrow> cls option" where
  "notified_class (AfterVersionClassBuilt c v) = Some c"
| "notified_class _ = None"

text \<open>The calls that construct a version class, and the calls of the relationship builder.\<close>

fun model_event :: "event \<Rightarrow> bool" where
  "model_event (ModelBuilderCall pending c t tx) = True"
| "model_event (AfterVersionClassBuilt c v) = True"
| "model_event _ = False"

fun relationship_event :: "event \<Rightarrow> bool" where
  "relationship_event (RelationshipBuilderCall pending c k) = True"
| "relationship_event _ = False"

text \<open>
  A manager in its second pass: the transaction class exists, \<open>User\<close> is pending, and the
  handler is running.
\<close>

definition second_pass_state :: state where
  "second_pass_state =
     (fresh_state [2])\<lparr>transaction_cls := Some (TransactionEntity 9),
       declarative_base := Some 9, in_handler := True\<rparr>"


section \<open>The pending list has no repetitions\<close>

lemma instrument_versioned_classes_distinct:
  "distinct (pending_classes s) \<Longrightarrow>
   distinct (pending_classes (instrument_versioned_classes w c s))"
  by (simp add: instrument_versioned_classes_def)

lemma instrument_versioned_classes_from_empty:
  "distinct (pending_classes (fold (instrument_versioned_classes w) cs (s\<lparr>pending_classes := []\<rparr>)))"
proof -
  have "distinct (pending_classes u) \<Longrightarrow>
      distinct (pending_classes (fold (instrument_versioned_classes w) cs u))" for u
    by (induction cs arbitrary: u) (simp_all add: instrument_versioned_classes_distinct)
  then show ?thesis by simp
qed

lemma instrument_versioned_classes_appends:
  "pending_classes (instrument_versioned_classes w c s) = pending_classes s \<or>
   (c \<notin> set (pending_classes s) \<and>
    pending_classes (instrument_versioned_classes w c s) = pending_classes s @ [c])"
  by (simp add: instrument_versioned_classes_def)

section \<open>Properties of the resolver\<close>

lemma issubclass_refl: "issubclass w c c"
  by (simp add: issubclass_def getmro_def)

lemma map_of_dict_keys: "k \<in> set (dict_keys d) \<Longrightarrow> \<exists>v. map_of d k = Some v"
  by (induction d) (auto simp: dict_keys_def)

text \<open>
  C10. The exact-match lookup is redundant: a class that is a key of the tables
  dictionary is a subclass of itself and heads its own method-resolution order, so the
  scan alone returns the same table for every class and every state.
\<close>

theorem closest_matching_table_fast_path_redundant:
  "closest_matching_table w s model = closest_matching_table_scan w s model"
  by (simp add: closest_matching_table_def closest_matching_table_scan_def
      getmro_def issubclass_def)

lemma filter_head_find:
  "(case filter P xs of [] \<Rightarrow> None | c # _ \<Rightarrow> f c) =
   (case find P xs of None \<Rightarrow> None | Some c \<Rightarrow> f c)"
  by (induction xs) auto

lemma closest_matching_table_find:
  "closest_matching_table w s model =
     (if model \<in> set (dict_keys (tables s)) then map_of (tables s) model
      else case find (\<lambda>c. c \<in> set (dict_keys (tables s)) \<and> issubclass w model c)
                  (getmro w model) of
             None \<Rightarrow> None
           | Some c \<Rightarrow> map_of (tables s) c)"
  by (simp add: closest_matching_table_def filter_head_find Let_def)

lemma find_split_first:
  "find P xs = Some k \<Longrightarrow> \<exists>pre post. xs = pre @ k # post \<and> P k \<and> (\<forall>a\<in>set pre. \<not> P a)"
proof (induction xs)
  case Nil
  then show ?case by simp
next
  case (Cons x xs)
  show ?case
  proof (cases "P x")
    case True
    with Cons.prems have "x = k" by simp
    with True have "x # xs = [] @ k # xs \<and> P k \<and> (\<forall>a\<in>set []. \<not> P a)" by simp
    then show ?thesis by blast
  next
    case False
    with Cons.prems have "find P xs = Some k" by simp
    from Cons.IH[OF this] obtain pre post where
      "xs = pre @ k # post" "P k" "\<forall>a\<in>set pre. \<not> P a" by blast
    with False have "x # xs = (x # pre) @ k # post \<and> P k \<and> (\<forall>a\<in>set (x # pre). \<not> P a)"
      by simp
    then show ?thesis by blast
  qed
qed

text \<open>
  C5. The resolver returns the exact entry when the class is a key of the tables
  dictionary; otherwise, when some key is a superclass, the table of the key that comes
  first in the method-resolution order of the class; and nothing when no key is a
  superclass. The result depends on the hierarchy, the tables dictionary and the class
  only, so repeated calls agree.
\<close>

theorem closest_matching_table_resolves:
  "(\<forall>t. map_of (tables s) model = Some t \<longrightarrow> closest_matching_table w s model = Some t) \<and>
   (model \<notin> set (dict_keys (tables s)) \<longrightarrow>
      (\<forall>k\<in>set (dict_keys (tables s)). \<not> issubclass w model k) \<longrightarrow>
      closest_matching_table w s model = None) \<and>
   (model \<notin> set (dict_keys (tables s)) \<longrightarrow>
      (\<exists>k\<in>set (dict_keys (tables s)). issubclass w model k) \<longrightarrow>
      (\<exists>pre k post t.
         getmro w model = pre @ k # post \<and>
         k \<in> set (dict_keys (tables s)) \<and> issubclass w model k \<and>
         (\<forall>a\<in>set pre. \<not> (a \<in> set (dict_keys (tables s)) \<and> issubclass w model a)) \<and>
         map_of (tables s) k = Some t \<and>
         closest_matching_table w s model = Some t)) \<and>
   (\<forall>s'. tables s' = tables s \<longrightarrow>
      closest_matching_table w s' model = closest_matching_table w s model)"
proof (intro conjI allI impI)
  fix t assume "map_of (tables s) model = Some t"
  then have "model \<in> set (dict_keys (tables s))"
    by (auto simp: dict_keys_def dest: map_of_SomeD intro: rev_image_eqI)
  with \<open>map_of (tables s) model = Some t\<close> show "closest_matching_table w s model = Some t"
    by (simp add: closest_matching_table_def)
next
  assume "model \<notin> set (dict_keys (tables s))"
    and none: "\<forall>k\<in>set (dict_keys (tables s)). \<not> issubclass w model k"
  have "find (\<lambda>c. c \<in> set (dict_keys (tables s)) \<and> issubclass w model c) (getmro w model) = None"
    using none by (simp add: find_None_iff)
  with \<open>model \<notin> set (dict_keys (tables s))\<close> show "closest_matching_table w s model = None"
    by (simp add: closest_matching_table_find)
next
  let ?Q = "\<lambda>c. c \<in> set (dict_keys (tables s)) \<and> issubclass w model c"
  assume nokey: "model \<notin> set (dict_keys (tables s))"
    and some: "\<exists>k\<in>set (dict_keys (tables s)). issubclass w model k"
  then obtain k0 where "?Q k0" by blast
  moreover from this have "k0 \<in> set (getmro w model)" by (simp add: issubclass_def)
  ultimately have "find ?Q (getmro w model) \<noteq> None"
    by (auto simp: find_None_iff)
  then obtain k where fk: "find ?Q (getmro w model) = Some k" by blast
  from find_split_first[OF fk] obtain pre post where
    sp: "getmro w model = pre @ k # post" "?Q k" "\<forall>a\<in>set pre. \<not> ?Q a" by blast
  from sp(2) have "k \<in> set (dict_keys (tables s))" by simp
  from map_of_dict_keys[OF this] obtain t where t: "map_of (tables s) k = Some t" ..
  from nokey fk t have "closest_matching_table w s model = Some t"
    by (simp add: closest_matching_table_find)
  with sp t show "\<exists>pre k post t.
         getmro w model = pre @ k # post \<and>
         k \<in> set (dict_keys (tables s)) \<and> issubclass w model k \<and>
         (\<forall>a\<in>set pre. \<not> (a \<in> set (dict_keys (tables s)) \<and> issubclass w model a)) \<and>
         map_of (tables s) k = Some t \<and>
         closest_matching_table w s model = Some t"
    by (intro exI[of _ pre] exI[of _ k] exI[of _ post] exI[of _ t]) simp
next
  fix s' :: state assume "tables s' = tables s"
  then show "closest_matching_table w s' model = closest_matching_table w s model"
    by (simp add: closest_matching_table_def)
qed

text \<open>
  With the version table of \<open>Article\<close> alone in the dictionary, \<open>Article\<close> resolves to it
  exactly, \<open>BlogArticle\<close> through its superclass, and \<open>User\<close> to nothing.
\<close>

theorem closest_matching_table_resolves_witness:
  "closest_matching_table blog_world article_state 0 = Some article_table \<and>
   closest_matching_table blog_world article_state 1 = Some article_table \<and>
   closest_matching_table blog_world article_state 2 = None \<and>
   closest_matching_table blog_world (article_state\<lparr>pending_classes := [1]\<rparr>) 1 = Some article_table"
proof -
  have keys: "dict_keys (tables article_state) = [0]"
    by (simp add: article_state_def fresh_state_def dict_keys_def)
  have look: "map_of (tables article_state) 0 = Some article_table"
    by (simp add: article_state_def fresh_state_def)
  have sub1: "issubclass blog_world 1 0" and sub2: "\<not> issubclass blog_world 2 0"
    by (simp_all add: issubclass_def getmro_def blog_world_def)
  note r0 = closest_matching_table_resolves[where w = blog_world and s = article_state and model = 0]
  note r1 = closest_matching_table_resolves[where w = blog_world and s = article_state and model = 1]
  note r2 = closest_matching_table_resolves[where w = blog_world and s = article_state and model = 2]
  have a: "closest_matching_table blog_world article_state 0 = Some article_table"
    using r0[THEN conjunct1, THEN spec, THEN mp, OF look] .
  have n1: "1 \<notin> set (dict_keys (tables article_state))"
    and n2: "2 \<notin> set (dict_keys (tables article_state))"
    by (simp_all add: keys)
  have e1: "\<exists>k\<in>set (dict_keys (tables article_state)). issubclass blog_world 1 k"
    using sub1 by (simp add: keys)
  have e2: "\<forall>k\<in>set (dict_keys (tables article_state)). \<not> issubclass blog_world 2 k"
    using sub2 by (simp add: keys)
  from r1[THEN conjunct2, THEN conjunct2, THEN conjunct1, THEN mp, THEN mp, OF n1 e1]
  obtain k t where
    k: "k \<in> set (dict_keys (tables article_state))" and kt: "map_of (tables article_state) k = Some t"
    and r: "closest_matching_table blog_world article_state 1 = Some t"
    by blast
  from k have "k = 0" by (simp add: keys)
  with kt look have "t = article_table" by simp
  with r have b: "closest_matching_table blog_world article_state 1 = Some article_table"
    by simp
  have c: "closest_matching_table blog_world article_state 2 = None"
    using r2[THEN conjunct2, THEN conjunct1, THEN mp, THEN mp, OF n2 e2] .
  have "tables (article_state\<lparr>pending_classes := [1]\<rparr>) = tables article_state" by simp
  from r1[THEN conjunct2, THEN conjunct2, THEN conjunct2, THEN spec, THEN mp, OF this] b
  have d: "closest_matching_table blog_world (article_state\<lparr>pending_classes := [1]\<rparr>) 1 =
      Some article_table"
    by simp
  from a b c d show ?thesis by simp
qed

section \<open>One version table for a hierarchy\<close>

lemma find_append_none: "find P xs = None \<Longrightarrow> find P (xs @ ys) = find P ys"
  by (induction xs) (auto split: if_splits)

lemma find_Some_mem: "find P xs = Some x \<Longrightarrow> x \<in> set xs"
  by (induction xs) (auto split: if_splits)

lemma find_Some_holds: "find P xs = Some x \<Longrightarrow> P x"
  by (induction xs) (auto split: if_splits)

lemma dict_keys_update:
  "dict_keys (AList.update k v d) =
     (if k \<in> set (dict_keys d) then dict_keys d else dict_keys d @ [k])"
  by (simp add: dict_keys_def update_keys)

lemma build_tables_body_inherited:
  assumes "manager_option w c ''versioning''" and "manager_option w c ''create_tables''"
    and "find (\<lambda>k. issubclass w c k \<and> table_of w c = table_of w k) (dict_keys (tables s)) = Some root"
    and "table_builder w (table_of w c) c (map_of (tables s) root) = Inr t"
  shows "build_tables_body w c s = Returned (s\<lparr>tables := AList.update root t (tables s)\<rparr>)"
  using assms by (simp add: build_tables_body_def)

lemma build_tables_body_fresh:
  assumes "manager_option w c ''versioning''" and "manager_option w c ''create_tables''"
    and "find (\<lambda>k. issubclass w c k \<and> table_of w c = table_of w k) (dict_keys (tables s)) = None"
    and "table_builder w (table_of w c) c None = Inr t"
  shows "build_tables_body w c s = Returned (s\<lparr>tables := AList.update c t (tables s)\<rparr>)"
  using assms by (simp add: build_tables_body_def)

lemma build_tables_body_skipped:
  assumes "\<not> (manager_option w c ''versioning'' \<and> manager_option w c ''create_tables'')"
  shows "build_tables_body w c s = Returned s"
  using assms by (auto simp: build_tables_body_def)

lemma build_tables_body_step:
  assumes member: "table_of w c = T \<longrightarrow>
        issubclass w c r \<and> manager_option w c ''versioning'' \<and> manager_option w c ''create_tables''"
    and builder: "\<forall>inherited. \<exists>t. table_builder w (table_of w c) c inherited = Inr t"
    and root: "table_of w r = T"
    and known: "\<forall>k\<in>set (dict_keys (tables u)). table_of w k = T \<longrightarrow> k = r"
    and dk: "distinct (dict_keys (tables u))"
    and ord: "r \<in> set (dict_keys (tables u)) \<or> c = r \<or> table_of w c \<noteq> T"
  shows "\<exists>u1. build_tables_body w c u = Returned u1 \<and>
      (\<forall>k\<in>set (dict_keys (tables u1)). table_of w k = T \<longrightarrow> k = r) \<and>
      distinct (dict_keys (tables u1)) \<and>
      set (dict_keys (tables u)) \<subseteq> set (dict_keys (tables u1)) \<and>
      (c = r \<longrightarrow> r \<in> set (dict_keys (tables u1)))"
proof (cases "manager_option w c ''versioning'' \<and> manager_option w c ''create_tables''")
  case False
  then have b: "build_tables_body w c u = Returned u" by (rule build_tables_body_skipped)
  have "c \<noteq> r"
  proof
    assume "c = r"
    with root member have "manager_option w c ''versioning'' \<and> manager_option w c ''create_tables''"
      by simp
    with False show False by simp
  qed
  then have "build_tables_body w c u = Returned u \<and>
      (\<forall>k\<in>set (dict_keys (tables u)). table_of w k = T \<longrightarrow> k = r) \<and>
      distinct (dict_keys (tables u)) \<and>
      set (dict_keys (tables u)) \<subseteq> set (dict_keys (tables u)) \<and>
      (c = r \<longrightarrow> r \<in> set (dict_keys (tables u)))"
    using b known dk by simp
  then show ?thesis by (rule exI)
next
  case True
  let ?m = "\<lambda>k. issubclass w c k \<and> table_of w c = table_of w k"
  show ?thesis
  proof (cases "find ?m (dict_keys (tables u))")
    case (Some klass)
    from builder obtain t where t: "table_builder w (table_of w c) c (map_of (tables u) klass) = Inr t"
      by blast
    have b: "build_tables_body w c u = Returned (u\<lparr>tables := AList.update klass t (tables u)\<rparr>)"
      using True Some t by (intro build_tables_body_inherited) simp_all
    have kk: "klass \<in> set (dict_keys (tables u))" by (rule find_Some_mem[OF Some])
    then have keys: "dict_keys (AList.update klass t (tables u)) = dict_keys (tables u)"
      by (simp add: dict_keys_update)
    have "c = r \<longrightarrow> r \<in> set (dict_keys (tables u))"
    proof
      assume "c = r"
      with find_Some_holds[OF Some] root have "table_of w klass = T" by simp
      with known kk have "klass = r" by blast
      with kk show "r \<in> set (dict_keys (tables u))" by simp
    qed
    moreover define u1 where "u1 = u\<lparr>tables := AList.update klass t (tables u)\<rparr>"
    ultimately have "build_tables_body w c u = Returned u1 \<and>
      (\<forall>k\<in>set (dict_keys (tables u1)). table_of w k = T \<longrightarrow> k = r) \<and>
      distinct (dict_keys (tables u1)) \<and>
      set (dict_keys (tables u)) \<subseteq> set (dict_keys (tables u1)) \<and>
      (c = r \<longrightarrow> r \<in> set (dict_keys (tables u1)))"
      using b keys known dk by simp
    then show ?thesis by (rule exI)
  next
    case None
    from builder obtain t where t: "table_builder w (table_of w c) c None = Inr t" by blast
    have b: "build_tables_body w c u = Returned (u\<lparr>tables := AList.update c t (tables u)\<rparr>)"
      using True None t by (intro build_tables_body_fresh) simp_all
    have nomatch: "\<And>k. k \<in> set (dict_keys (tables u)) \<Longrightarrow> \<not> ?m k"
      using None by (simp add: find_None_iff)
    have cnew: "c \<notin> set (dict_keys (tables u))"
      using nomatch[of c] by (auto simp: issubclass_refl)
    then have keys: "dict_keys (AList.update c t (tables u)) = dict_keys (tables u) @ [c]"
      by (simp add: dict_keys_update)
    have "table_of w c = T \<longrightarrow> c = r"
    proof
      assume cT: "table_of w c = T"
      show "c = r"
      proof (rule ccontr)
        assume "c \<noteq> r"
        with ord cT have rk: "r \<in> set (dict_keys (tables u))" by simp
        from member cT root have "?m r" by simp
        with nomatch[OF rk] show False by simp
      qed
    qed
    moreover define u1 where "u1 = u\<lparr>tables := AList.update c t (tables u)\<rparr>"
    moreover have "dict_keys (tables u1) = dict_keys (tables u) @ [c]"
      by (simp add: u1_def keys)
    ultimately have "build_tables_body w c u = Returned u1 \<and>
      (\<forall>k\<in>set (dict_keys (tables u1)). table_of w k = T \<longrightarrow> k = r) \<and>
      distinct (dict_keys (tables u1)) \<and>
      set (dict_keys (tables u)) \<subseteq> set (dict_keys (tables u1)) \<and>
      (c = r \<longrightarrow> r \<in> set (dict_keys (tables u1)))"
      using b known dk cnew by auto
    then show ?thesis by (rule exI)
  qed
qed

lemma build_tables_loop_one_table:
  assumes members: "\<forall>c\<in>set cs. table_of w c = T \<longrightarrow>
        issubclass w c r \<and> manager_option w c ''versioning'' \<and> manager_option w c ''create_tables''"
    and builder: "\<forall>c\<in>set cs. \<forall>inherited. \<exists>t. table_builder w (table_of w c) c inherited = Inr t"
    and root: "table_of w r = T"
    and known: "\<forall>k\<in>set (dict_keys (tables u)). table_of w k = T \<longrightarrow> k = r"
    and order: "r \<in> set (dict_keys (tables u)) \<or>
        (\<exists>pre post. cs = pre @ r # post \<and> (\<forall>c\<in>set pre. table_of w c \<noteq> T))"
    and dk: "distinct (dict_keys (tables u))"
  shows "\<exists>s'. for_each (build_tables_body w) cs u = Returned s' \<and>
      (\<forall>k\<in>set (dict_keys (tables s')). table_of w k = T \<longrightarrow> k = r) \<and>
      r \<in> set (dict_keys (tables s')) \<and> distinct (dict_keys (tables s'))"
  using members builder known order dk
proof (induction cs arbitrary: u)
  case Nil
  then show ?case by simp
next
  case (Cons c cs)
  have ord: "r \<in> set (dict_keys (tables u)) \<or> c = r \<or> table_of w c \<noteq> T"
  proof (cases "r \<in> set (dict_keys (tables u))")
    case True
    then show ?thesis by simp
  next
    case False
    with Cons.prems(4) obtain pre post where
      sp: "c # cs = pre @ r # post" "\<forall>c\<in>set pre. table_of w c \<noteq> T" by blast
    show ?thesis
    proof (cases pre)
      case Nil
      with sp(1) show ?thesis by simp
    next
      case (Cons x xs)
      with sp have "x = c" "table_of w x \<noteq> T" by simp_all
      then show ?thesis by simp
    qed
  qed
  have m: "table_of w c = T \<longrightarrow>
        issubclass w c r \<and> manager_option w c ''versioning'' \<and> manager_option w c ''create_tables''"
    using Cons.prems(1) by simp
  have b: "\<forall>inherited. \<exists>t. table_builder w (table_of w c) c inherited = Inr t"
    using Cons.prems(2) by simp
  from build_tables_body_step[OF m b root Cons.prems(3) Cons.prems(5) ord] obtain u1 where
    step: "build_tables_body w c u = Returned u1"
    and known1: "\<forall>k\<in>set (dict_keys (tables u1)). table_of w k = T \<longrightarrow> k = r"
    and dk1: "distinct (dict_keys (tables u1))"
    and sub: "set (dict_keys (tables u)) \<subseteq> set (dict_keys (tables u1))"
    and cr: "c = r \<longrightarrow> r \<in> set (dict_keys (tables u1))"
    by blast
  have order1: "r \<in> set (dict_keys (tables u1)) \<or>
        (\<exists>pre post. cs = pre @ r # post \<and> (\<forall>c\<in>set pre. table_of w c \<noteq> T))"
  proof (cases "r \<in> set (dict_keys (tables u1))")
    case True
    then show ?thesis by simp
  next
    case False
    with sub have "r \<notin> set (dict_keys (tables u))" by blast
    with Cons.prems(4) obtain pre post where
      sp: "c # cs = pre @ r # post" "\<forall>c\<in>set pre. table_of w c \<noteq> T" by blast
    from False cr have cr': "c \<noteq> r" by blast
    show ?thesis
    proof (cases pre)
      case Nil
      with sp(1) cr' show ?thesis by simp
    next
      case (Cons x pre')
      with sp have "cs = pre' @ r # post \<and> (\<forall>c\<in>set pre'. table_of w c \<noteq> T)" by simp
      then show ?thesis by blast
    qed
  qed
  have m1: "\<forall>c\<in>set cs. table_of w c = T \<longrightarrow>
        issubclass w c r \<and> manager_option w c ''versioning'' \<and> manager_option w c ''create_tables''"
    using Cons.prems(1) by simp
  have b1: "\<forall>c\<in>set cs. \<forall>inherited. \<exists>t. table_builder w (table_of w c) c inherited = Inr t"
    using Cons.prems(2) by simp
  from Cons.IH[OF m1 b1 known1 order1 dk1] obtain s' where
    "for_each (build_tables_body w) cs u1 = Returned s'"
    "\<forall>k\<in>set (dict_keys (tables s')). table_of w k = T \<longrightarrow> k = r"
    "r \<in> set (dict_keys (tables s'))" "distinct (dict_keys (tables s'))"
    by blast
  moreover from this(1) step have "for_each (build_tables_body w) (c # cs) u = Returned s'"
    by simp
  ultimately show ?case by blast
qed

lemma filter_single:
  assumes "distinct xs" and "r \<in> set xs" and "P r" and "\<forall>k\<in>set xs. P k \<longrightarrow> k = r"
  shows "filter P xs = [r]"
proof -
  from \<open>r \<in> set xs\<close> obtain ys zs where sp: "xs = ys @ r # zs"
    by (auto simp: in_set_conv_decomp)
  with \<open>distinct xs\<close> have nr: "r \<notin> set ys" "r \<notin> set zs" by simp_all
  have "\<And>k. k \<in> set ys \<union> set zs \<Longrightarrow> \<not> P k"
  proof
    fix k assume k: "k \<in> set ys \<union> set zs" and "P k"
    with sp assms(4) have "k = r" by auto
    with k nr show False by simp
  qed
  then have "filter P ys = []" "filter P zs = []"
    by (simp_all add: filter_empty_conv)
  with sp \<open>P r\<close> show ?thesis by simp
qed

text \<open>
  C1. Take the classes mapped to one physical table \<open>T\<close>, all descending from the class
  \<open>r\<close> and all with versioning and table creation enabled. When \<open>r\<close> already is a key of
  the tables dictionary, or comes before every other class of \<open>T\<close> in the pending list, as
  it does when classes are collected in the order of their declaration, \<^verbatim>\<open>build_tables\<close>
  returns with exactly one key for the classes of \<open>T\<close>, and that key is \<open>r\<close>. This holds for
  every pending list of that kind, so for every order of the subclasses, with classes of
  other tables anywhere in between.
\<close>

theorem build_tables_one_table_per_hierarchy:
  assumes root: "table_of w r = T"
    and members: "\<forall>c\<in>set pending. table_of w c = T \<longrightarrow>
        issubclass w c r \<and> manager_option w c ''versioning'' \<and> manager_option w c ''create_tables''"
    and builder: "\<forall>c\<in>set pending. \<forall>inherited.
        \<exists>t. table_builder w (table_of w c) c inherited = Inr t"
    and known: "\<forall>k\<in>set (dict_keys (tables s)). table_of w k = T \<longrightarrow> k = r"
    and order: "r \<in> set (dict_keys (tables s)) \<or>
        (\<exists>pre post. pending = pre @ r # post \<and> (\<forall>c\<in>set pre. table_of w c \<noteq> T))"
    and dk: "distinct (dict_keys (tables s))"
  shows "\<exists>s'. build_tables w (s\<lparr>pending_classes := pending\<rparr>) = Returned s' \<and>
      filter (\<lambda>k. table_of w k = T) (dict_keys (tables s')) = [r]"
proof -
  let ?u = "s\<lparr>pending_classes := pending\<rparr>"
  have known': "\<forall>k\<in>set (dict_keys (tables ?u)). table_of w k = T \<longrightarrow> k = r"
    using known by simp
  have order': "r \<in> set (dict_keys (tables ?u)) \<or>
        (\<exists>pre post. pending = pre @ r # post \<and> (\<forall>c\<in>set pre. table_of w c \<noteq> T))"
    using order by simp
  have dk': "distinct (dict_keys (tables ?u))" using dk by simp
  from build_tables_loop_one_table[OF members builder root known' order' dk'] obtain s' where
    r: "for_each (build_tables_body w) pending ?u = Returned s'"
    and k: "\<forall>k\<in>set (dict_keys (tables s')). table_of w k = T \<longrightarrow> k = r"
    and rk: "r \<in> set (dict_keys (tables s'))" and d: "distinct (dict_keys (tables s'))"
    by blast
  have "filter (\<lambda>k. table_of w k = T) (dict_keys (tables s')) = [r]"
    by (rule filter_single[OF d rk root k])
  with r show ?thesis by (simp add: build_tables_def)
qed

text \<open>
  \<open>User\<close> first, then \<open>Article\<close> and its two subclasses in either order: the same two
  tables, the one of \<open>Article\<close> under the key \<open>Article\<close>. The two subclasses pending when
  the table of \<open>Article\<close> exists already: no further key.
\<close>

theorem build_tables_one_table_per_hierarchy_witness:
  "build_tables blog_world ((fresh_state [])\<lparr>pending_classes := [2, 0, 1, 3]\<rparr>) =
     Returned ((fresh_state [2, 0, 1, 3])\<lparr>tables :=
       [(2, ShadowTable 1 [''id'', ''transaction_id'', ''operation_type'']), (0, article_table)]\<rparr>) \<and>
   build_tables blog_world ((fresh_state [])\<lparr>pending_classes := [2, 0, 3, 1]\<rparr>) =
     Returned ((fresh_state [2, 0, 3, 1])\<lparr>tables :=
       [(2, ShadowTable 1 [''id'', ''transaction_id'', ''operation_type'']), (0, article_table)]\<rparr>) \<and>
   build_tables blog_world (article_state\<lparr>pending_classes := [3, 1]\<rparr>) =
     Returned (article_state\<lparr>pending_classes := [3, 1]\<rparr>) \<and>
   filter (\<lambda>k. table_of blog_world k = 0)
     (dict_keys [(2, ShadowTable 1 [''id'', ''transaction_id'', ''operation_type'']),
                 (0, article_table)]) = [0] \<and>
   filter (\<lambda>k. table_of blog_world k = 0) (dict_keys (tables article_state)) = [0]"
proof -
  have root: "table_of blog_world 0 = 0" by (simp add: blog_world_def)
  have members: "\<forall>c\<in>set ps. table_of blog_world c = 0 \<longrightarrow>
        issubclass blog_world c 0 \<and> manager_option blog_world c ''versioning'' \<and>
        manager_option blog_world c ''create_tables''"
    if "set ps \<subseteq> {0, 1, 2, 3}" for ps
    using that by (auto simp: blog_world_def issubclass_def getmro_def)
  have builder: "\<forall>c\<in>set ps. \<forall>inherited.
        \<exists>t. table_builder blog_world (table_of blog_world c) c inherited = Inr t" for ps
    by (simp add: blog_world_def)
  have known0: "\<forall>k\<in>set (dict_keys (tables (fresh_state []))). table_of blog_world k = 0 \<longrightarrow> k = 0"
    and dk0: "distinct (dict_keys (tables (fresh_state [])))"
    by (simp_all add: fresh_state_def dict_keys_def)
  have known1: "\<forall>k\<in>set (dict_keys (tables article_state)). table_of blog_world k = 0 \<longrightarrow> k = 0"
    and dk1: "distinct (dict_keys (tables article_state))"
    and in1: "0 \<in> set (dict_keys (tables article_state))"
    by (simp_all add: article_state_def fresh_state_def dict_keys_def)
  have o1: "0 \<in> set (dict_keys (tables (fresh_state []))) \<or>
      (\<exists>pre post. [2, 0, 1, 3] = pre @ 0 # post \<and> (\<forall>c\<in>set pre. table_of blog_world c \<noteq> 0))"
  proof -
    have "[2, 0, 1, 3::nat] = [2] @ 0 # [1, 3] \<and> (\<forall>c\<in>set [2::nat]. table_of blog_world c \<noteq> 0)"
      by (simp add: blog_world_def)
    then show ?thesis by blast
  qed
  have o2: "0 \<in> set (dict_keys (tables (fresh_state []))) \<or>
      (\<exists>pre post. [2, 0, 3, 1] = pre @ 0 # post \<and> (\<forall>c\<in>set pre. table_of blog_world c \<noteq> 0))"
  proof -
    have "[2, 0, 3, 1::nat] = [2] @ 0 # [3, 1] \<and> (\<forall>c\<in>set [2::nat]. table_of blog_world c \<noteq> 0)"
      by (simp add: blog_world_def)
    then show ?thesis by blast
  qed
  have o3: "0 \<in> set (dict_keys (tables article_state)) \<or>
      (\<exists>pre post. [3, 1] = pre @ 0 # post \<and> (\<forall>c\<in>set pre. table_of blog_world c \<noteq> 0))"
    using in1 by simp
  have m1: "set [2, 0, 1, 3::nat] \<subseteq> {0, 1, 2, 3}" and m2: "set [2, 0, 3, 1::nat] \<subseteq> {0, 1, 2, 3}"
    and m3: "set [3, 1::nat] \<subseteq> {0, 1, 2, 3}"
    by simp_all
  from build_tables_one_table_per_hierarchy[OF root members[OF m1] builder known0 o1 dk0]
  obtain a where a: "build_tables blog_world ((fresh_state [])\<lparr>pending_classes := [2, 0, 1, 3]\<rparr>) = Returned a"
    and fa: "filter (\<lambda>k. table_of blog_world k = 0) (dict_keys (tables a)) = [0]" by blast
  from build_tables_one_table_per_hierarchy[OF root members[OF m2] builder known0 o2 dk0]
  obtain b where b: "build_tables blog_world ((fresh_state [])\<lparr>pending_classes := [2, 0, 3, 1]\<rparr>) = Returned b"
    by blast
  from build_tables_one_table_per_hierarchy[OF root members[OF m3] builder known1 o3 dk1]
  obtain c where c: "build_tables blog_world (article_state\<lparr>pending_classes := [3, 1]\<rparr>) = Returned c"
    and fc: "filter (\<lambda>k. table_of blog_world k = 0) (dict_keys (tables c)) = [0]" by blast
  have a': "build_tables blog_world ((fresh_state [])\<lparr>pending_classes := [2, 0, 1, 3]\<rparr>) =
     Returned ((fresh_state [2, 0, 1, 3])\<lparr>tables :=
       [(2, ShadowTable 1 [''id'', ''transaction_id'', ''operation_type'']), (0, article_table)]\<rparr>)"
    by (simp add: build_tables_def build_tables_body_def fresh_state_def blog_world_def
        issubclass_def getmro_def dict_keys_def article_table_def)
  have b': "build_tables blog_world ((fresh_state [])\<lparr>pending_classes := [2, 0, 3, 1]\<rparr>) =
     Returned ((fresh_state [2, 0, 3, 1])\<lparr>tables :=
       [(2, ShadowTable 1 [''id'', ''transaction_id'', ''operation_type'']), (0, article_table)]\<rparr>)"
    by (simp add: build_tables_def build_tables_body_def fresh_state_def blog_world_def
        issubclass_def getmro_def dict_keys_def article_table_def)
  have c': "build_tables blog_world (article_state\<lparr>pending_classes := [3, 1]\<rparr>) =
     Returned (article_state\<lparr>pending_classes := [3, 1]\<rparr>)"
    by (simp add: build_tables_def build_tables_body_def article_state_def fresh_state_def
        blog_world_def issubclass_def getmro_def dict_keys_def article_table_def)
  from a a' fa have fa': "filter (\<lambda>k. table_of blog_world k = 0)
     (dict_keys [(2, ShadowTable 1 [''id'', ''transaction_id'', ''operation_type'']),
                 (0, article_table)]) = [0]" by simp
  from c c' fc have fc': "filter (\<lambda>k. table_of blog_world k = 0)
      (dict_keys (tables article_state)) = [0]" by simp
  from a' b' c' fa' fc' show ?thesis by (intro conjI)
qed

section \<open>The handler when nested calls return at once\<close>

lemma and_then_simps [simp]:
  "and_then (Returned s) f = f s"
  "and_then (Raised e s) f = Raised e s"
  "and_then OutOfFuel f = OutOfFuel"
  by (simp_all add: and_then_def)

lemma call_out_Returned [simp]:
  "call_out w Returned ev s = Returned (s\<lparr>trace := trace s @ [ev]\<rparr>)"
  by (simp add: call_out_def)

lemma for_each_emit:
  assumes "\<And>x u. x \<in> set xs \<Longrightarrow> g u = G \<Longrightarrow>
      body x u = Returned (u\<lparr>trace := trace u @ ev x\<rparr>)"
    and "\<And>u t. g (u\<lparr>trace := t\<rparr>) = g u"
    and "g s = G"
  shows "for_each body xs s = Returned (s\<lparr>trace := trace s @ concat (map ev xs)\<rparr>)"
  using assms(1,3)
proof (induction xs arbitrary: s)
  case Nil
  show ?case by simp
next
  case (Cons x xs)
  have "body x s = Returned (s\<lparr>trace := trace s @ ev x\<rparr>)"
    by (rule Cons.prems(1)) (simp_all add: Cons.prems(2))
  then have "for_each body (x # xs) s = for_each body xs (s\<lparr>trace := trace s @ ev x\<rparr>)"
    by simp
  also have "\<dots> = Returned ((s\<lparr>trace := trace s @ ev x\<rparr>)
      \<lparr>trace := trace (s\<lparr>trace := trace s @ ev x\<rparr>) @ concat (map ev xs)\<rparr>)"
  proof (rule Cons.IH)
    fix y u assume "y \<in> set xs" "g u = G"
    then show "body y u = Returned (u\<lparr>trace := trace u @ ev y\<rparr>)"
      by (intro Cons.prems(1)) simp_all
  next
    show "g (s\<lparr>trace := trace s @ ev x\<rparr>) = G"
      by (simp add: assms(2) Cons.prems(2))
  qed
  also have "\<dots> = Returned (s\<lparr>trace := trace s @ concat (map ev (x # xs))\<rparr>)"
    by simp
  finally show ?case .
qed


lemma concat_map_if_singleton:
  "concat (map (\<lambda>x. if P x then [] else [f x]) xs) = map f (filter (\<lambda>x. \<not> P x) xs)"
  by (induction xs) auto

lemma version_class_found:
  "c \<in> set (dict_keys (version_class_map s)) \<Longrightarrow> \<exists>v. version_class s c = Inr v"
  using map_of_dict_keys[of c "version_class_map s"] by (auto simp: version_class_def)


lemma relationship_builder_Returned:
  assumes "c \<in> set (dict_keys (version_class_map s))"
  shows "relationship_builder w Returned c k s =
     Returned (s\<lparr>trace := trace s @ [RelationshipBuilderCall (pending_classes s) c k]\<rparr>)"
  using version_class_found[OF assms] by (auto simp: relationship_builder_def)


lemma build_relationships_props_Returned:
  assumes "c \<in> set (dict_keys (version_class_map s)) \<or>
      filter (\<lambda>k. k \<noteq> ''versions'') (map prop_key props) = []"
  shows "for_each (build_relationships_prop w Returned c) props s =
     Returned (s\<lparr>trace := trace s @
        map (RelationshipBuilderCall (pending_classes s) c)
          (filter (\<lambda>k. k \<noteq> ''versions'') (map prop_key props))\<rparr>)"
proof -
  let ?ev = "\<lambda>prop. if prop_key prop = ''versions'' then []
      else [RelationshipBuilderCall (pending_classes s) c (prop_key prop)]"
  have "for_each (build_relationships_prop w Returned c) props s =
      Returned (s\<lparr>trace := trace s @ concat (map ?ev props)\<rparr>)"
  proof (rule for_each_emit[where g = "\<lambda>u. (version_class_map u, pending_classes u)"
        and G = "(version_class_map s, pending_classes s)"])
    fix p and u :: state
    assume p: "p \<in> set props"
      and g: "(version_class_map u, pending_classes u) = (version_class_map s, pending_classes s)"
    show "build_relationships_prop w Returned c p u = Returned (u\<lparr>trace := trace u @ ?ev p\<rparr>)"
    proof (cases "prop_key p = ''versions''")
      case True
      then show ?thesis by (simp add: build_relationships_prop_def)
    next
      case False
      with p have "filter (\<lambda>k. k \<noteq> ''versions'') (map prop_key props) \<noteq> []"
        by (auto simp: filter_empty_conv)
      with assms g have "c \<in> set (dict_keys (version_class_map u))" by simp
      from relationship_builder_Returned[OF this] False g show ?thesis
        by (simp add: build_relationships_prop_def)
    qed
  qed simp_all
  then show ?thesis
    by (simp add: concat_map_if_singleton filter_map comp_def)
qed

lemma build_relationships_body_Returned:
  assumes "manager_option w c ''versioning'' \<longrightarrow>
      c \<in> set (dict_keys (version_class_map s)) \<or>
      filter (\<lambda>k. k \<noteq> ''versions'') (map prop_key (iterate_properties w c)) = []"
  shows "build_relationships_body w Returned c s =
     Returned (s\<lparr>trace := trace s @ relationship_calls w (pending_classes s) c\<rparr>)"
proof (cases "manager_option w c ''versioning''")
  case False
  then show ?thesis by (simp add: build_relationships_body_def relationship_calls_def)
next
  case True
  with assms build_relationships_props_Returned[of c s "iterate_properties w c" w]
  show ?thesis
    by (simp add: build_relationships_body_def relationship_calls_def)
qed

lemma build_relationships_Returned:
  assumes "\<forall>c\<in>set cs. manager_option w c ''versioning'' \<longrightarrow>
      c \<in> set (dict_keys (version_class_map s)) \<or>
      filter (\<lambda>k. k \<noteq> ''versions'') (map prop_key (iterate_properties w c)) = []"
  shows "build_relationships w Returned cs s =
     Returned (s\<lparr>trace := trace s @ concat (map (relationship_calls w (pending_classes s)) cs)\<rparr>)"
  unfolding build_relationships_def
proof (rule for_each_emit[where g = "\<lambda>u. (version_class_map u, pending_classes u)"
      and G = "(version_class_map s, pending_classes s)"])
  fix c and u :: state
  assume c: "c \<in> set cs"
    and g: "(version_class_map u, pending_classes u) = (version_class_map s, pending_classes s)"
  with assms have "manager_option w c ''versioning'' \<longrightarrow>
      c \<in> set (dict_keys (version_class_map u)) \<or>
      filter (\<lambda>k. k \<noteq> ''versions'') (map prop_key (iterate_properties w c)) = []"
    by simp
  from build_relationships_body_Returned[OF this] g
  show "build_relationships_body w Returned c u =
      Returned (u\<lparr>trace := trace u @ relationship_calls w (pending_classes s) c\<rparr>)"
    by simp
qed simp_all


lemma for_each_preserves:
  assumes "\<And>x s s'. body x s = Returned s' \<Longrightarrow> P s' = P s"
    and "for_each body xs s = Returned s'"
  shows "P s' = P s"
  using assms(2)
proof (induction xs arbitrary: s)
  case Nil
  then show ?case by simp
next
  case (Cons x xs)
  from Cons.prems obtain s1 where b: "body x s = Returned s1"
    and r: "for_each body xs s1 = Returned s'"
    by (cases "body x s") simp_all
  from Cons.IH[OF r] assms(1)[OF b] show ?case by simp
qed

lemma for_each_returns:
  assumes "\<And>x s. x \<in> set xs \<Longrightarrow> \<exists>s'. body x s = Returned s'"
  shows "\<exists>s'. for_each body xs s = Returned s'"
  using assms
proof (induction xs arbitrary: s)
  case Nil
  show ?case by simp
next
  case (Cons x xs)
  from Cons.prems[of x s] obtain s1 where b: "body x s = Returned s1" by auto
  have "\<And>y u. y \<in> set xs \<Longrightarrow> \<exists>s'. body y u = Returned s'"
    using Cons.prems by simp
  from Cons.IH[OF this] obtain s' where "for_each body xs s1 = Returned s'" by blast
  with b show ?case by simp
qed

lemma enable_active_history_Returned:
  "enable_active_history w Returned cs s =
     Returned (s\<lparr>trace := trace s @ concat (map (active_history_calls w) cs)\<rparr>)"
proof -
  have inner: "for_each (enable_active_history_prop w Returned c) (iterate_properties w c) u =
      Returned (u\<lparr>trace := trace u @ active_history_calls w c\<rparr>)" for c and u :: state
  proof -
    have "for_each (enable_active_history_prop w Returned c) (iterate_properties w c) u =
      Returned (u\<lparr>trace := trace u @ concat (map (\<lambda>p.
        if concrete_inherited p then [] else [ActiveHistorySet c (prop_key p)])
        (iterate_properties w c))\<rparr>)"
      by (rule for_each_emit[where g = "\<lambda>_. ()" and G = "()"])
        (simp_all add: enable_active_history_prop_def)
    then show ?thesis
      by (simp add: active_history_calls_def concat_map_if_singleton)
  qed
  show ?thesis
    unfolding enable_active_history_def
    by (rule for_each_emit[where g = "\<lambda>_. ()" and G = "()"]) (simp_all add: inner)
qed

lemma create_column_aliases_body_Returned:
  "create_column_aliases_body w Returned c s =
     Returned (s\<lparr>trace := trace s @ column_alias_calls w (version_class_map s) c\<rparr>)"
proof (cases "map_of (version_class_map s) c")
  case None
  then show ?thesis by (simp add: create_column_aliases_body_def column_alias_calls_def)
next
  case (Some v)
  let ?P = "\<lambda>kc. \<not> (fst kc \<noteq> snd kc \<and> snd kc \<in> set (shadow_columns (version_table v)))"
  have "for_each (create_column_aliases_column w Returned c v) (mapper_columns w c) s =
      Returned (s\<lparr>trace := trace s @ concat (map (\<lambda>kc.
        if ?P kc then [] else [ColumnAliasAdded c (fst kc)]) (mapper_columns w c))\<rparr>)"
    by (rule for_each_emit[where g = "\<lambda>_. ()" and G = "()"])
      (simp_all add: create_column_aliases_column_def)
  with Some show ?thesis
    by (simp add: create_column_aliases_body_def column_alias_calls_def concat_map_if_singleton)
qed

lemma create_column_aliases_Returned:
  "create_column_aliases w Returned cs s =
     Returned (s\<lparr>trace := trace s @ concat (map (column_alias_calls w (version_class_map s)) cs)\<rparr>)"
  unfolding create_column_aliases_def
  by (rule for_each_emit[where g = version_class_map and G = "version_class_map s"])
    (simp_all add: create_column_aliases_body_Returned)

lemma create_association_proxies_key_Returned:
  assumes "c \<in> set (dict_keys (version_class_map s))"
  shows "create_association_proxies_key w Returned c k s =
     Returned (s\<lparr>trace := trace s @ [AssociationProxySet c k]\<rparr>)"
  using version_class_found[OF assms] by (auto simp: create_association_proxies_key_def)

lemma create_hybrid_properties_key_Returned:
  assumes "c \<in> set (dict_keys (version_class_map s))"
  shows "create_hybrid_properties_key w Returned c k s =
     Returned (s\<lparr>trace := trace s @ [HybridPropertySet c k]\<rparr>)"
  using version_class_found[OF assms] by (auto simp: create_hybrid_properties_key_def)

lemma create_association_proxies_Returned:
  assumes "\<forall>c\<in>set cs. c \<in> set (dict_keys (version_class_map s)) \<or>
      get_association_proxies w c = []"
  shows "create_association_proxies w Returned cs s =
     Returned (s\<lparr>trace := trace s @ concat (map (association_proxy_calls w) cs)\<rparr>)"
  unfolding create_association_proxies_def
proof (rule for_each_emit[where g = version_class_map and G = "version_class_map s"])
  fix c and u :: state
  assume c: "c \<in> set cs" and g: "version_class_map u = version_class_map s"
  have "for_each (create_association_proxies_key w Returned c) (get_association_proxies w c) u =
      Returned (u\<lparr>trace := trace u @
        concat (map (\<lambda>k. [AssociationProxySet c k]) (get_association_proxies w c))\<rparr>)"
  proof (rule for_each_emit[where g = version_class_map and G = "version_class_map s"])
    fix k and v :: state
    assume k: "k \<in> set (get_association_proxies w c)"
      and gv: "version_class_map v = version_class_map s"
    from k have "get_association_proxies w c \<noteq> []" by auto
    with assms c gv have "c \<in> set (dict_keys (version_class_map v))" by auto
    then show "create_association_proxies_key w Returned c k v =
        Returned (v\<lparr>trace := trace v @ [AssociationProxySet c k]\<rparr>)"
      by (rule create_association_proxies_key_Returned)
  qed (simp_all add: g)
  then show "for_each (create_association_proxies_key w Returned c) (get_association_proxies w c) u =
      Returned (u\<lparr>trace := trace u @ association_proxy_calls w c\<rparr>)"
    by (simp add: association_proxy_calls_def concat_map_singleton)
qed simp_all

lemma create_hybrid_properties_Returned:
  assumes "\<forall>c\<in>set cs. c \<in> set (dict_keys (version_class_map s)) \<or>
      get_hybrid_properties w c = []"
  shows "create_hybrid_properties w Returned cs s =
     Returned (s\<lparr>trace := trace s @ concat (map (hybrid_property_calls w) cs)\<rparr>)"
  unfolding create_hybrid_properties_def
proof (rule for_each_emit[where g = version_class_map and G = "version_class_map s"])
  fix c and u :: state
  assume c: "c \<in> set cs" and g: "version_class_map u = version_class_map s"
  have "for_each (create_hybrid_properties_key w Returned c) (get_hybrid_properties w c) u =
      Returned (u\<lparr>trace := trace u @
        concat (map (\<lambda>k. [HybridPropertySet c k]) (get_hybrid_properties w c))\<rparr>)"
  proof (rule for_each_emit[where g = version_class_map and G = "version_class_map s"])
    fix k and v :: state
    assume k: "k \<in> set (get_hybrid_properties w c)"
      and gv: "version_class_map v = version_class_map s"
    from k have "get_hybrid_properties w c \<noteq> []" by auto
    with assms c gv have "c \<in> set (dict_keys (version_class_map v))" by auto
    then show "create_hybrid_properties_key w Returned c k v =
        Returned (v\<lparr>trace := trace v @ [HybridPropertySet c k]\<rparr>)"
      by (rule create_hybrid_properties_key_Returned)
  qed (simp_all add: g)
  then show "for_each (create_hybrid_properties_key w Returned c) (get_hybrid_properties w c) u =
      Returned (u\<lparr>trace := trace u @ hybrid_property_calls w c\<rparr>)"
    by (simp add: hybrid_property_calls_def concat_map_singleton)
qed simp_all

lemma closest_matching_table_cong:
  "tables s' = tables s \<Longrightarrow> closest_matching_table w s' c = closest_matching_table w s c"
  by (simp add: closest_matching_table_def)

lemma model_calls_cong:
  "tables s' = tables s \<Longrightarrow> transaction_cls s' = transaction_cls s \<Longrightarrow>
   pending_classes s' = pending_classes s \<Longrightarrow>
   model_calls w s' c = model_calls w s c"
  using closest_matching_table_cong[of s' s w] by (simp add: model_calls_def split: option.splits)

lemma registered_models_cong:
  "tables s' = tables s \<Longrightarrow> transaction_cls s' = transaction_cls s \<Longrightarrow>
   registered_models w s' cs m = registered_models w s cs m"
  using closest_matching_table_cong[of s' s w]
  by (induction cs arbitrary: m) (simp_all split: option.splits)

lemma build_models_body_Returned:
  "build_models_body w Returned c s =
     Returned (s\<lparr>version_class_map := registered_models w s [c] (version_class_map s),
                 trace := trace s @ model_calls w s c\<rparr>)"
proof (cases "manager_option w c ''versioning''")
  case False
  then show ?thesis by (simp add: build_models_body_def model_calls_def)
next
  case True
  show ?thesis
  proof (cases "closest_matching_table w s c")
    case None
    with True show ?thesis by (simp add: build_models_body_def model_calls_def)
  next
    case (Some t)
    with True show ?thesis
      by (simp add: build_models_body_def model_builder_def model_calls_def)
  qed
qed

lemma build_models_loop_Returned:
  "for_each (build_models_body w Returned) cs s =
     Returned (s\<lparr>version_class_map := registered_models w s cs (version_class_map s),
                 trace := trace s @ concat (map (model_calls w s) cs)\<rparr>)"
proof (induction cs arbitrary: s)
  case Nil
  show ?case by simp
next
  case (Cons c cs)
  define s1 where "s1 = s\<lparr>version_class_map := registered_models w s [c] (version_class_map s),
                 trace := trace s @ model_calls w s c\<rparr>"
  have t1: "tables s1 = tables s" and x1: "transaction_cls s1 = transaction_cls s"
    and p1: "pending_classes s1 = pending_classes s"
    by (simp_all add: s1_def)
  have mc: "model_calls w s1 = model_calls w s"
    by (rule ext) (rule model_calls_cong[OF t1 x1 p1])
  have rm: "registered_models w s1 cs (version_class_map s1) =
      registered_models w s cs (version_class_map s1)"
    by (rule registered_models_cong[OF t1 x1])
  have "for_each (build_models_body w Returned) (c # cs) s =
      for_each (build_models_body w Returned) cs s1"
    by (simp add: build_models_body_Returned s1_def)
  also have "\<dots> = Returned (s1\<lparr>version_class_map := registered_models w s1 cs (version_class_map s1),
                 trace := trace s1 @ concat (map (model_calls w s1) cs)\<rparr>)"
    by (rule Cons.IH)
  also have "\<dots> = Returned (s1\<lparr>version_class_map := registered_models w s cs (version_class_map s1),
                 trace := trace s1 @ concat (map (model_calls w s) cs)\<rparr>)"
    by (simp only: mc rm)
  also have "\<dots> = Returned (s\<lparr>version_class_map := registered_models w s (c # cs) (version_class_map s),
                 trace := trace s @ concat (map (model_calls w s) (c # cs))\<rparr>)"
    by (simp add: s1_def)
  finally show ?case .
qed

lemma build_models_Returned:
  "build_models w Returned s =
     Returned (s\<lparr>version_class_map :=
                   registered_models w s (pending_classes s) (version_class_map s),
                 trace := trace s @ concat (map (model_calls w s) (pending_classes s)) @
                   (if pending_classes s = [] then [] else [AfterBuildModels])\<rparr>)"
  by (simp add: build_models_def build_models_loop_Returned)

lemma create_transaction_model_trace: "trace (create_transaction_model s) = trace s"
  by (simp add: create_transaction_model_def split: option.splits)

lemma build_transaction_class_Returned:
  "build_transaction_class w Returned s =
     (case pending_classes s of
        [] \<Rightarrow> Returned s
      | c # _ \<Rightarrow>
          (case get_declarative_base w c of
             Inl e \<Rightarrow> Raised e s
           | Inr b \<Rightarrow>
               Returned ((create_transaction_model (s\<lparr>declarative_base := Some b\<rparr>))
                 \<lparr>trace := trace s @ [AfterBuildTxClass]\<rparr>)))"
proof (cases "pending_classes s")
  case Nil
  then show ?thesis by (simp add: build_transaction_class_def)
next
  case (Cons c cs)
  show ?thesis
  proof (cases "get_declarative_base w c")
    case (Inl e)
    with Cons show ?thesis by (simp add: build_transaction_class_def)
  next
    case (Inr b)
    with Cons show ?thesis
      by (simp add: build_transaction_class_def create_transaction_model_trace)
  qed
qed

lemma configure_versioned_classes_phases:
  "configure_versioned_classes w nested s =
     (if \<not> options_versioning s then Returned s
      else
        and_then (build_tables w s) (\<lambda>s1.
        and_then (build_transaction_class w nested s1) (\<lambda>s2.
          if \<not> options_create_models s2 then Returned (s2\<lparr>pending_classes := []\<rparr>)
          else models_and_relationships w nested s2)))"
proof -
  have fp: "\<And>cs. finishing_passes w nested cs = (\<lambda>s5.
      and_then (enable_active_history w nested cs s5) (\<lambda>s6.
      and_then (create_column_aliases w nested cs s6) (\<lambda>s7.
      and_then (create_association_proxies w nested cs s7)
        (create_hybrid_properties w nested cs))))"
    by (rule ext) (simp add: finishing_passes_def)
  show ?thesis
    by (simp add: configure_versioned_classes_def models_and_relationships_def fp Let_def
        cong: if_cong)
qed

lemma finishing_passes_Returned:
  assumes "\<forall>c\<in>set cs. c \<in> set (dict_keys (version_class_map s)) \<or>
      get_association_proxies w c = []"
    and "\<forall>c\<in>set cs. c \<in> set (dict_keys (version_class_map s)) \<or>
      get_hybrid_properties w c = []"
  shows "finishing_passes w Returned cs s =
     Returned (s\<lparr>trace := trace s @
        concat (map (active_history_calls w) cs) @
        concat (map (column_alias_calls w (version_class_map s)) cs) @
        concat (map (association_proxy_calls w) cs) @
        concat (map (hybrid_property_calls w) cs)\<rparr>)"
proof -
  define s6 where "s6 = s\<lparr>trace := trace s @ concat (map (active_history_calls w) cs)\<rparr>"
  define s7 where "s7 = s6\<lparr>trace := trace s6 @
      concat (map (column_alias_calls w (version_class_map s6)) cs)\<rparr>"
  define s8 where "s8 = s7\<lparr>trace := trace s7 @ concat (map (association_proxy_calls w) cs)\<rparr>"
  define s9 where "s9 = s8\<lparr>trace := trace s8 @ concat (map (hybrid_property_calls w) cs)\<rparr>"
  have v7: "version_class_map s7 = version_class_map s"
    and v8: "version_class_map s8 = version_class_map s"
    by (simp_all add: s8_def s7_def s6_def)
  have e1: "enable_active_history w Returned cs s = Returned s6"
    unfolding s6_def by (rule enable_active_history_Returned)
  have e2: "create_column_aliases w Returned cs s6 = Returned s7"
    unfolding s7_def by (rule create_column_aliases_Returned)
  have e3: "create_association_proxies w Returned cs s7 = Returned s8"
    unfolding s8_def by (rule create_association_proxies_Returned) (simp add: v7 assms(1))
  have e4: "create_hybrid_properties w Returned cs s8 = Returned s9"
    unfolding s9_def by (rule create_hybrid_properties_Returned) (simp add: v8 assms(2))
  have "finishing_passes w Returned cs s = Returned s9"
    by (simp add: finishing_passes_def e1 e2 e3 e4)
  also have "s9 = s\<lparr>trace := trace s @
        concat (map (active_history_calls w) cs) @
        concat (map (column_alias_calls w (version_class_map s)) cs) @
        concat (map (association_proxy_calls w) cs) @
        concat (map (hybrid_property_calls w) cs)\<rparr>"
    by (simp add: s9_def s8_def s7_def s6_def)
  finally show ?thesis .
qed

lemma models_and_relationships_Returned:
  assumes rel: "\<forall>c\<in>set (pending_classes s). manager_option w c ''versioning'' \<longrightarrow>
      c \<in> set (dict_keys (registered_models w s (pending_classes s) (version_class_map s))) \<or>
      filter (\<lambda>k. k \<noteq> ''versions'') (map prop_key (iterate_properties w c)) = []"
    and ap: "\<forall>c\<in>set (pending_classes s).
      c \<in> set (dict_keys (registered_models w s (pending_classes s) (version_class_map s))) \<or>
      get_association_proxies w c = []"
    and hp: "\<forall>c\<in>set (pending_classes s).
      c \<in> set (dict_keys (registered_models w s (pending_classes s) (version_class_map s))) \<or>
      get_hybrid_properties w c = []"
  shows "models_and_relationships w Returned s =
     Returned (s\<lparr>pending_classes := [],
        version_class_map := registered_models w s (pending_classes s) (version_class_map s),
        trace := trace s @
          concat (map (model_calls w s) (pending_classes s)) @
          (if pending_classes s = [] then [] else [AfterBuildModels]) @
          concat (map (relationship_calls w []) (pending_classes s)) @
          concat (map (active_history_calls w) (pending_classes s)) @
          concat (map (column_alias_calls w
            (registered_models w s (pending_classes s) (version_class_map s))) (pending_classes s)) @
          concat (map (association_proxy_calls w) (pending_classes s)) @
          concat (map (hybrid_property_calls w) (pending_classes s))\<rparr>)"
proof -
  let ?ps = "pending_classes s"
  let ?vcm = "registered_models w s ?ps (version_class_map s)"
  define s3 where "s3 = s\<lparr>version_class_map := ?vcm,
      trace := trace s @ concat (map (model_calls w s) ?ps) @
        (if ?ps = [] then [] else [AfterBuildModels])\<rparr>"
  define s4 where "s4 = s3\<lparr>pending_classes := []\<rparr>"
  define s5 where "s5 = s4\<lparr>trace := trace s4 @
      concat (map (relationship_calls w (pending_classes s4)) ?ps)\<rparr>"
  define s9 where "s9 = s5\<lparr>trace := trace s5 @
        concat (map (active_history_calls w) ?ps) @
        concat (map (column_alias_calls w (version_class_map s5)) ?ps) @
        concat (map (association_proxy_calls w) ?ps) @
        concat (map (hybrid_property_calls w) ?ps)\<rparr>"
  have p3: "pending_classes s3 = ?ps" by (simp add: s3_def)
  have v4: "version_class_map s4 = ?vcm" and v5: "version_class_map s5 = ?vcm"
    by (simp_all add: s5_def s4_def s3_def)
  have bm: "build_models w Returned s = Returned s3"
    unfolding s3_def by (rule build_models_Returned)
  have br: "build_relationships w Returned ?ps s4 = Returned s5"
    unfolding s5_def by (rule build_relationships_Returned) (simp add: v4 rel)
  have fp: "finishing_passes w Returned ?ps s5 = Returned s9"
    unfolding s9_def by (rule finishing_passes_Returned) (simp_all add: v5 ap hp)
  have "models_and_relationships w Returned s = Returned s9"
    by (simp add: models_and_relationships_def bm p3 br[unfolded s4_def] fp)
  also have "s9 = s\<lparr>pending_classes := [],
        version_class_map := ?vcm,
        trace := trace s @
          concat (map (model_calls w s) ?ps) @
          (if ?ps = [] then [] else [AfterBuildModels]) @
          concat (map (relationship_calls w []) ?ps) @
          concat (map (active_history_calls w) ?ps) @
          concat (map (column_alias_calls w ?vcm) ?ps) @
          concat (map (association_proxy_calls w) ?ps) @
          concat (map (hybrid_property_calls w) ?ps)\<rparr>"
    by (simp add: s9_def s5_def s4_def s3_def)
  finally show ?thesis .
qed

section \<open>Nested calls of the guarded handler\<close>

lemma call_out_guarded:
  assumes "\<And>s. in_handler s \<Longrightarrow> nested s = Returned s" and "in_handler s"
  shows "call_out w nested ev s = call_out w Returned ev s"
  using assms by (simp add: call_out_def Let_def)

lemma for_each_guarded:
  assumes eq: "\<And>x s. in_handler s \<Longrightarrow> body x s = body' x s"
    and inv: "\<And>x s s'. body' x s = Returned s' \<Longrightarrow> in_handler s' = in_handler s"
    and "in_handler s"
  shows "for_each body xs s = for_each body' xs s"
  using \<open>in_handler s\<close>
proof (induction xs arbitrary: s)
  case Nil
  show ?case by simp
next
  case (Cons x xs)
  have b: "body x s = body' x s" by (rule eq[OF Cons.prems])
  show ?case
  proof (cases "body' x s")
    case (Returned s1)
    with inv[of x s s1] Cons.prems have "in_handler s1" by simp
    from Cons.IH[OF this] Returned b show ?thesis by simp
  next
    case (Raised e s1)
    with b show ?thesis by simp
  next
    case OutOfFuel
    with b show ?thesis by simp
  qed
qed

lemma and_then_guarded:
  assumes "r = r'" and "\<And>s'. r' = Returned s' \<Longrightarrow> f s' = f' s'"
  shows "and_then r f = and_then r' f'"
  using assms by (cases r') (simp_all add: and_then_def)

lemma relationship_builder_in_handler:
  "relationship_builder w Returned c k s = Returned s' \<Longrightarrow> in_handler s' = in_handler s"
  by (auto simp: relationship_builder_def split: sum.splits)

lemma build_relationships_prop_in_handler:
  "build_relationships_prop w Returned c p s = Returned s' \<Longrightarrow> in_handler s' = in_handler s"
  using relationship_builder_in_handler[of w c "prop_key p" s s']
  by (auto simp: build_relationships_prop_def split: if_splits)

lemma build_relationships_body_in_handler:
  assumes "build_relationships_body w Returned c s = Returned s'"
  shows "in_handler s' = in_handler s"
proof (cases "manager_option w c ''versioning''")
  case False
  with assms show ?thesis by (simp add: build_relationships_body_def)
next
  case True
  with assms have "for_each (build_relationships_prop w Returned c) (iterate_properties w c) s =
      Returned s'"
    by (simp add: build_relationships_body_def)
  then show ?thesis
    by (rule for_each_preserves[rotated]) (rule build_relationships_prop_in_handler)
qed

lemma build_relationships_in_handler:
  assumes "build_relationships w Returned cs s = Returned s'"
  shows "in_handler s' = in_handler s"
  using assms unfolding build_relationships_def
  by (rule for_each_preserves[rotated]) (rule build_relationships_body_in_handler)

lemma create_association_proxies_in_handler:
  assumes "create_association_proxies w Returned cs s = Returned s'"
  shows "in_handler s' = in_handler s"
  using assms unfolding create_association_proxies_def
proof (rule for_each_preserves[rotated])
  fix c and u u' :: state
  assume "for_each (create_association_proxies_key w Returned c)
      (get_association_proxies w c) u = Returned u'"
  then show "in_handler u' = in_handler u"
    by (rule for_each_preserves[rotated])
      (auto simp: create_association_proxies_key_def split: sum.splits)
qed

lemma create_hybrid_properties_in_handler:
  assumes "create_hybrid_properties w Returned cs s = Returned s'"
  shows "in_handler s' = in_handler s"
  using assms unfolding create_hybrid_properties_def
proof (rule for_each_preserves[rotated])
  fix c and u u' :: state
  assume "for_each (create_hybrid_properties_key w Returned c)
      (get_hybrid_properties w c) u = Returned u'"
  then show "in_handler u' = in_handler u"
    by (rule for_each_preserves[rotated])
      (auto simp: create_hybrid_properties_key_def split: sum.splits)
qed

lemma relationship_builder_guarded:
  assumes g: "\<And>s. in_handler s \<Longrightarrow> nested s = Returned s" and h: "in_handler s"
  shows "relationship_builder w nested c k s = relationship_builder w Returned c k s"
  using h call_out_guarded[OF g h]
  by (simp add: relationship_builder_def split: sum.splits)

lemma build_relationships_body_guarded:
  assumes g: "\<And>s. in_handler s \<Longrightarrow> nested s = Returned s" and h: "in_handler s"
  shows "build_relationships_body w nested c s = build_relationships_body w Returned c s"
proof -
  have "for_each (build_relationships_prop w nested c) (iterate_properties w c) s =
      for_each (build_relationships_prop w Returned c) (iterate_properties w c) s"
  proof (rule for_each_guarded[OF _ _ h])
    fix p and u :: state assume "in_handler u"
    then show "build_relationships_prop w nested c p u = build_relationships_prop w Returned c p u"
      by (simp add: build_relationships_prop_def relationship_builder_guarded[OF g])
  next
    fix p and u u' :: state
    assume "build_relationships_prop w Returned c p u = Returned u'"
    then show "in_handler u' = in_handler u" by (rule build_relationships_prop_in_handler)
  qed
  then show ?thesis by (simp add: build_relationships_body_def)
qed

lemma build_relationships_guarded:
  assumes g: "\<And>s. in_handler s \<Longrightarrow> nested s = Returned s" and h: "in_handler s"
  shows "build_relationships w nested cs s = build_relationships w Returned cs s"
  unfolding build_relationships_def
proof (rule for_each_guarded[OF _ _ h])
  fix c and u :: state assume "in_handler u"
  then show "build_relationships_body w nested c u = build_relationships_body w Returned c u"
    by (simp add: build_relationships_body_guarded[OF g])
next
  fix c and u u' :: state
  assume "build_relationships_body w Returned c u = Returned u'"
  then show "in_handler u' = in_handler u" by (rule build_relationships_body_in_handler)
qed

lemma enable_active_history_guarded:
  assumes g: "\<And>s. in_handler s \<Longrightarrow> nested s = Returned s" and h: "in_handler s"
  shows "enable_active_history w nested cs s = enable_active_history w Returned cs s"
  unfolding enable_active_history_def
proof (rule for_each_guarded[OF _ _ h])
  fix c and u :: state assume hu: "in_handler u"
  show "for_each (enable_active_history_prop w nested c) (iterate_properties w c) u =
      for_each (enable_active_history_prop w Returned c) (iterate_properties w c) u"
  proof (rule for_each_guarded[OF _ _ hu])
    fix p and v :: state assume "in_handler v"
    then show "enable_active_history_prop w nested c p v = enable_active_history_prop w Returned c p v"
      by (simp add: enable_active_history_prop_def call_out_guarded[OF g])
  next
    fix p and v v' :: state
    assume "enable_active_history_prop w Returned c p v = Returned v'"
    then show "in_handler v' = in_handler v"
      by (auto simp: enable_active_history_prop_def split: if_splits)
  qed
next
  fix c and u u' :: state
  assume r: "for_each (enable_active_history_prop w Returned c) (iterate_properties w c) u = Returned u'"
  show "in_handler u' = in_handler u"
    by (rule for_each_preserves[OF _ r]) (auto simp: enable_active_history_prop_def split: if_splits)
qed

lemma create_column_aliases_guarded:
  assumes g: "\<And>s. in_handler s \<Longrightarrow> nested s = Returned s" and h: "in_handler s"
  shows "create_column_aliases w nested cs s = create_column_aliases w Returned cs s"
  unfolding create_column_aliases_def
proof (rule for_each_guarded[OF _ _ h])
  fix c and u :: state assume hu: "in_handler u"
  have "\<And>v. for_each (create_column_aliases_column w nested c v) (mapper_columns w c) u =
      for_each (create_column_aliases_column w Returned c v) (mapper_columns w c) u"
  proof (rule for_each_guarded[OF _ _ hu])
    fix v kc and x :: state assume "in_handler x"
    then show "create_column_aliases_column w nested c v kc x =
        create_column_aliases_column w Returned c v kc x"
      by (simp add: create_column_aliases_column_def call_out_guarded[OF g])
  next
    fix v kc and x x' :: state
    assume "create_column_aliases_column w Returned c v kc x = Returned x'"
    then show "in_handler x' = in_handler x"
      by (auto simp: create_column_aliases_column_def split: if_splits)
  qed
  then show "create_column_aliases_body w nested c u = create_column_aliases_body w Returned c u"
    by (simp add: create_column_aliases_body_def split: option.splits)
next
  fix c and u u' :: state
  assume "create_column_aliases_body w Returned c u = Returned u'"
  then show "in_handler u' = in_handler u" by (auto simp: create_column_aliases_body_Returned)
qed

lemma create_association_proxies_guarded:
  assumes g: "\<And>s. in_handler s \<Longrightarrow> nested s = Returned s" and h: "in_handler s"
  shows "create_association_proxies w nested cs s = create_association_proxies w Returned cs s"
  unfolding create_association_proxies_def
proof (rule for_each_guarded[OF _ _ h])
  fix c and u :: state assume hu: "in_handler u"
  show "for_each (create_association_proxies_key w nested c) (get_association_proxies w c) u =
      for_each (create_association_proxies_key w Returned c) (get_association_proxies w c) u"
  proof (rule for_each_guarded[OF _ _ hu])
    fix k and v :: state assume "in_handler v"
    then show "create_association_proxies_key w nested c k v =
        create_association_proxies_key w Returned c k v"
      by (simp add: create_association_proxies_key_def call_out_guarded[OF g] split: sum.splits)
  next
    fix k and v v' :: state
    assume "create_association_proxies_key w Returned c k v = Returned v'"
    then show "in_handler v' = in_handler v"
      by (auto simp: create_association_proxies_key_def split: sum.splits)
  qed
next
  fix c and u u' :: state
  assume r: "for_each (create_association_proxies_key w Returned c)
        (get_association_proxies w c) u = Returned u'"
  show "in_handler u' = in_handler u"
    by (rule for_each_preserves[OF _ r])
      (auto simp: create_association_proxies_key_def split: sum.splits)
qed

lemma create_hybrid_properties_guarded:
  assumes g: "\<And>s. in_handler s \<Longrightarrow> nested s = Returned s" and h: "in_handler s"
  shows "create_hybrid_properties w nested cs s = create_hybrid_properties w Returned cs s"
  unfolding create_hybrid_properties_def
proof (rule for_each_guarded[OF _ _ h])
  fix c and u :: state assume hu: "in_handler u"
  show "for_each (create_hybrid_properties_key w nested c) (get_hybrid_properties w c) u =
      for_each (create_hybrid_properties_key w Returned c) (get_hybrid_properties w c) u"
  proof (rule for_each_guarded[OF _ _ hu])
    fix k and v :: state assume "in_handler v"
    then show "create_hybrid_properties_key w nested c k v =
        create_hybrid_properties_key w Returned c k v"
      by (simp add: create_hybrid_properties_key_def call_out_guarded[OF g] split: sum.splits)
  next
    fix k and v v' :: state
    assume "create_hybrid_properties_key w Returned c k v = Returned v'"
    then show "in_handler v' = in_handler v"
      by (auto simp: create_hybrid_properties_key_def split: sum.splits)
  qed
next
  fix c and u u' :: state
  assume r: "for_each (create_hybrid_properties_key w Returned c)
        (get_hybrid_properties w c) u = Returned u'"
  show "in_handler u' = in_handler u"
    by (rule for_each_preserves[OF _ r])
      (auto simp: create_hybrid_properties_key_def split: sum.splits)
qed

lemma build_models_body_guarded:
  assumes g: "\<And>s. in_handler s \<Longrightarrow> nested s = Returned s" and h: "in_handler s"
  shows "build_models_body w nested c s = build_models_body w Returned c s"
proof -
  have mb: "\<And>t. model_builder w nested c t s = model_builder w Returned c t s"
    using h by (simp add: model_builder_def call_out_guarded[OF g])
  have "\<And>t ev. and_then (model_builder w nested c t s) (call_out w nested ev) =
      and_then (model_builder w Returned c t s) (call_out w Returned ev)"
  proof (rule and_then_guarded[OF mb])
    fix t ev and u :: state assume "model_builder w Returned c t s = Returned u"
    with h have "in_handler u" by (auto simp: model_builder_def)
    then show "call_out w nested ev u = call_out w Returned ev u"
      by (simp add: call_out_guarded[OF g])
  qed
  then show ?thesis
    by (simp add: build_models_body_def Let_def split: option.splits)
qed

lemma build_models_guarded:
  assumes g: "\<And>s. in_handler s \<Longrightarrow> nested s = Returned s" and h: "in_handler s"
  shows "build_models w nested s = build_models w Returned s"
proof -
  have loop: "for_each (build_models_body w nested) (pending_classes s) s =
      for_each (build_models_body w Returned) (pending_classes s) s"
  proof (rule for_each_guarded[OF _ _ h])
    fix c and u :: state assume "in_handler u"
    then show "build_models_body w nested c u = build_models_body w Returned c u"
      by (simp add: build_models_body_guarded[OF g])
  next
    fix c and u u' :: state
    assume "build_models_body w Returned c u = Returned u'"
    then show "in_handler u' = in_handler u" by (auto simp: build_models_body_Returned)
  qed
  have "and_then (for_each (build_models_body w nested) (pending_classes s) s)
        (call_out w nested AfterBuildModels) =
      and_then (for_each (build_models_body w Returned) (pending_classes s) s)
        (call_out w Returned AfterBuildModels)"
  proof (rule and_then_guarded[OF loop])
    fix u assume "for_each (build_models_body w Returned) (pending_classes s) s = Returned u"
    with h have "in_handler u" by (auto simp: build_models_loop_Returned)
    then show "call_out w nested AfterBuildModels u = call_out w Returned AfterBuildModels u"
      by (simp add: call_out_guarded[OF g])
  qed
  then show ?thesis by (simp add: build_models_def)
qed

lemma create_transaction_model_in_handler:
  "in_handler (create_transaction_model s) = in_handler s"
  by (simp add: create_transaction_model_def split: option.splits)

lemma build_transaction_class_guarded:
  assumes g: "\<And>s. in_handler s \<Longrightarrow> nested s = Returned s" and h: "in_handler s"
  shows "build_transaction_class w nested s = build_transaction_class w Returned s"
proof -
  have "\<And>b. call_out w nested AfterBuildTxClass
          (create_transaction_model (s\<lparr>declarative_base := Some b\<rparr>)) =
        call_out w Returned AfterBuildTxClass
          (create_transaction_model (s\<lparr>declarative_base := Some b\<rparr>))"
    using h by (simp add: call_out_guarded[OF g] create_transaction_model_in_handler)
  then show ?thesis
    by (simp add: build_transaction_class_def split: list.splits sum.splits)
qed

lemma finishing_passes_guarded:
  assumes g: "\<And>s. in_handler s \<Longrightarrow> nested s = Returned s" and h: "in_handler s"
  shows "finishing_passes w nested cs s = finishing_passes w Returned cs s"
  unfolding finishing_passes_def
proof (rule and_then_guarded[OF enable_active_history_guarded[OF g h]])
  fix s6 assume "enable_active_history w Returned cs s = Returned s6"
  with h have h6: "in_handler s6" by (auto simp: enable_active_history_Returned)
  show "and_then (create_column_aliases w nested cs s6) (\<lambda>s7.
          and_then (create_association_proxies w nested cs s7)
            (create_hybrid_properties w nested cs)) =
        and_then (create_column_aliases w Returned cs s6) (\<lambda>s7.
          and_then (create_association_proxies w Returned cs s7)
            (create_hybrid_properties w Returned cs))"
  proof (rule and_then_guarded[OF create_column_aliases_guarded[OF g h6]])
    fix s7 assume "create_column_aliases w Returned cs s6 = Returned s7"
    with h6 have h7: "in_handler s7" by (auto simp: create_column_aliases_Returned)
    show "and_then (create_association_proxies w nested cs s7)
            (create_hybrid_properties w nested cs) =
          and_then (create_association_proxies w Returned cs s7)
            (create_hybrid_properties w Returned cs)"
    proof (rule and_then_guarded[OF create_association_proxies_guarded[OF g h7]])
      fix s8 assume "create_association_proxies w Returned cs s7 = Returned s8"
      with h7 have "in_handler s8" by (simp add: create_association_proxies_in_handler)
      then show "create_hybrid_properties w nested cs s8 = create_hybrid_properties w Returned cs s8"
        by (simp add: create_hybrid_properties_guarded[OF g])
    qed
  qed
qed

lemma models_and_relationships_guarded:
  assumes g: "\<And>s. in_handler s \<Longrightarrow> nested s = Returned s" and h: "in_handler s"
  shows "models_and_relationships w nested s = models_and_relationships w Returned s"
  unfolding models_and_relationships_def
proof (rule and_then_guarded[OF build_models_guarded[OF g h]])
  fix s3 assume "build_models w Returned s = Returned s3"
  with h have h3: "in_handler (s3\<lparr>pending_classes := []\<rparr>)"
    by (auto simp: build_models_Returned)
  show "and_then (build_relationships w nested (pending_classes s3) (s3\<lparr>pending_classes := []\<rparr>))
          (finishing_passes w nested (pending_classes s3)) =
        and_then (build_relationships w Returned (pending_classes s3) (s3\<lparr>pending_classes := []\<rparr>))
          (finishing_passes w Returned (pending_classes s3))"
  proof (rule and_then_guarded[OF build_relationships_guarded[OF g h3]])
    fix s5
    assume "build_relationships w Returned (pending_classes s3) (s3\<lparr>pending_classes := []\<rparr>) =
        Returned s5"
    with h3 have "in_handler s5" by (simp add: build_relationships_in_handler)
    then show "finishing_passes w nested (pending_classes s3) s5 =
        finishing_passes w Returned (pending_classes s3) s5"
      by (simp add: finishing_passes_guarded[OF g])
  qed
qed

lemma build_tables_body_frame:
  "build_tables_body w c s = Returned s' \<Longrightarrow> s'\<lparr>tables := []\<rparr> = s\<lparr>tables := []\<rparr>"
  by (auto simp: build_tables_body_def split: if_splits option.splits sum.splits)

lemma build_tables_frame:
  assumes "build_tables w s = Returned s'"
  shows "s'\<lparr>tables := []\<rparr> = s\<lparr>tables := []\<rparr>"
  using assms unfolding build_tables_def
  by (rule for_each_preserves[rotated]) (rule build_tables_body_frame)

lemma build_tables_in_handler:
  assumes "build_tables w s = Returned s'"
  shows "in_handler s' = in_handler s"
  using arg_cong[OF build_tables_frame[OF assms], of in_handler] by simp

lemma build_transaction_class_in_handler:
  "build_transaction_class w Returned s = Returned s' \<Longrightarrow> in_handler s' = in_handler s"
  by (auto simp: build_transaction_class_Returned create_transaction_model_in_handler
      split: list.splits sum.splits)

lemma configure_versioned_classes_guarded:
  assumes g: "\<And>s. in_handler s \<Longrightarrow> nested s = Returned s" and h: "in_handler s"
  shows "configure_versioned_classes w nested s = configure_versioned_classes w Returned s"
proof (cases "options_versioning s")
  case False
  then show ?thesis by (simp add: configure_versioned_classes_phases)
next
  case True
  have "and_then (build_tables w s) (\<lambda>s1.
          and_then (build_transaction_class w nested s1) (\<lambda>s2.
            if \<not> options_create_models s2 then Returned (s2\<lparr>pending_classes := []\<rparr>)
            else models_and_relationships w nested s2)) =
        and_then (build_tables w s) (\<lambda>s1.
          and_then (build_transaction_class w Returned s1) (\<lambda>s2.
            if \<not> options_create_models s2 then Returned (s2\<lparr>pending_classes := []\<rparr>)
            else models_and_relationships w Returned s2))"
  proof (rule and_then_guarded[OF refl])
    fix s1 assume "build_tables w s = Returned s1"
    with h have h1: "in_handler s1" by (simp add: build_tables_in_handler)
    show "and_then (build_transaction_class w nested s1) (\<lambda>s2.
            if \<not> options_create_models s2 then Returned (s2\<lparr>pending_classes := []\<rparr>)
            else models_and_relationships w nested s2) =
          and_then (build_transaction_class w Returned s1) (\<lambda>s2.
            if \<not> options_create_models s2 then Returned (s2\<lparr>pending_classes := []\<rparr>)
            else models_and_relationships w Returned s2)"
    proof (rule and_then_guarded[OF build_transaction_class_guarded[OF g h1]])
      fix s2 assume "build_transaction_class w Returned s1 = Returned s2"
      with h1 have h2: "in_handler s2" by (simp add: build_transaction_class_in_handler)
      show "(if \<not> options_create_models s2 then Returned (s2\<lparr>pending_classes := []\<rparr>)
             else models_and_relationships w nested s2) =
            (if \<not> options_create_models s2 then Returned (s2\<lparr>pending_classes := []\<rparr>)
             else models_and_relationships w Returned s2)"
        by (simp add: models_and_relationships_guarded[OF g h2])
    qed
  qed
  with True show ?thesis by (simp add: configure_versioned_classes_phases)
qed

lemma orchestrator_nested:
  "in_handler s \<Longrightarrow> orchestrator w (Suc n) s = Returned s"
  by (simp add: prevent_reentry_def)

lemma orchestrator_collapse:
  "orchestrator w (Suc (Suc n)) s = prevent_reentry (configure_versioned_classes w Returned) s"
proof (cases "in_handler s")
  case True
  then show ?thesis by (simp add: prevent_reentry_def)
next
  case False
  have "configure_versioned_classes w (orchestrator w (Suc n)) (s\<lparr>in_handler := True\<rparr>) =
      configure_versioned_classes w Returned (s\<lparr>in_handler := True\<rparr>)"
    by (rule configure_versioned_classes_guarded) (simp_all add: prevent_reentry_def)
  with False show ?thesis
    by (simp add: prevent_reentry_def)
qed

lemma quiet_issubclass: "issubclass (w\<lparr>reenters := r\<rparr>) = issubclass w"
  by (intro ext) (simp add: issubclass_def getmro_def)

lemma quiet_closest_matching_table:
  "closest_matching_table (w\<lparr>reenters := r\<rparr>) = closest_matching_table w"
  by (intro ext) (simp add: closest_matching_table_def quiet_issubclass getmro_def)

lemma quiet_build_tables: "build_tables (w\<lparr>reenters := r\<rparr>) = build_tables w"
proof -
  have "build_tables_body (w\<lparr>reenters := r\<rparr>) = build_tables_body w"
    by (intro ext) (simp add: build_tables_body_def quiet_issubclass split: option.splits)
  then show ?thesis by (intro ext) (simp add: build_tables_def)
qed

lemma quiet_build_transaction_class:
  "build_transaction_class (w\<lparr>reenters := r\<rparr>) Returned = build_transaction_class w Returned"
  by (intro ext) (simp add: build_transaction_class_Returned split: list.splits)

lemma call_out_quiet:
  "call_out (w\<lparr>reenters := r\<rparr>) Returned ev = call_out w Returned ev"
  by (rule ext) simp

lemma quiet_build_models:
  "build_models (w\<lparr>reenters := r\<rparr>) Returned = build_models w Returned"
proof -
  have "build_models_body (w\<lparr>reenters := r\<rparr>) Returned = build_models_body w Returned"
    by (intro ext)
      (simp add: build_models_body_def model_builder_def quiet_closest_matching_table
        split: option.splits)
  then show ?thesis by (intro ext) (simp add: build_models_def call_out_quiet)
qed

lemma quiet_build_relationships:
  "build_relationships (w\<lparr>reenters := r\<rparr>) Returned = build_relationships w Returned"
proof -
  have "build_relationships_prop (w\<lparr>reenters := r\<rparr>) Returned = build_relationships_prop w Returned"
    by (intro ext)
      (simp add: build_relationships_prop_def relationship_builder_def split: sum.splits)
  then have "build_relationships_body (w\<lparr>reenters := r\<rparr>) Returned =
      build_relationships_body w Returned"
    by (intro ext) (simp add: build_relationships_body_def)
  then show ?thesis by (intro ext) (simp add: build_relationships_def)
qed

lemma quiet_finishing_passes:
  "finishing_passes (w\<lparr>reenters := r\<rparr>) Returned = finishing_passes w Returned"
proof -
  have ah: "enable_active_history (w\<lparr>reenters := r\<rparr>) Returned = enable_active_history w Returned"
  proof -
    have "enable_active_history_prop (w\<lparr>reenters := r\<rparr>) Returned =
        enable_active_history_prop w Returned"
      by (intro ext) (simp add: enable_active_history_prop_def)
    then show ?thesis by (intro ext) (simp add: enable_active_history_def)
  qed
  have ca: "create_column_aliases (w\<lparr>reenters := r\<rparr>) Returned = create_column_aliases w Returned"
  proof -
    have "create_column_aliases_column (w\<lparr>reenters := r\<rparr>) Returned =
        create_column_aliases_column w Returned"
      by (intro ext) (simp add: create_column_aliases_column_def)
    then have "create_column_aliases_body (w\<lparr>reenters := r\<rparr>) Returned =
        create_column_aliases_body w Returned"
      by (intro ext) (simp add: create_column_aliases_body_def split: option.splits)
    then show ?thesis by (intro ext) (simp add: create_column_aliases_def)
  qed
  have ap: "create_association_proxies (w\<lparr>reenters := r\<rparr>) Returned =
      create_association_proxies w Returned"
  proof -
    have "create_association_proxies_key (w\<lparr>reenters := r\<rparr>) Returned =
        create_association_proxies_key w Returned"
      by (intro ext) (simp add: create_association_proxies_key_def split: sum.splits)
    then show ?thesis by (intro ext) (simp add: create_association_proxies_def)
  qed
  have hp: "create_hybrid_properties (w\<lparr>reenters := r\<rparr>) Returned =
      create_hybrid_properties w Returned"
  proof -
    have "create_hybrid_properties_key (w\<lparr>reenters := r\<rparr>) Returned =
        create_hybrid_properties_key w Returned"
      by (intro ext) (simp add: create_hybrid_properties_key_def split: sum.splits)
    then show ?thesis by (intro ext) (simp add: create_hybrid_properties_def)
  qed
  show ?thesis
    by (intro ext) (simp add: finishing_passes_def ah ca ap hp)
qed

lemma quiet_models_and_relationships:
  "models_and_relationships (w\<lparr>reenters := r\<rparr>) Returned = models_and_relationships w Returned"
  by (intro ext)
    (simp add: models_and_relationships_def quiet_build_models quiet_build_relationships
      quiet_finishing_passes)

lemma quiet_configure_versioned_classes:
  "configure_versioned_classes (w\<lparr>reenters := r\<rparr>) Returned =
     configure_versioned_classes w Returned"
  by (intro ext)
    (simp only: configure_versioned_classes_phases quiet_build_tables
      quiet_build_transaction_class quiet_models_and_relationships)

section \<open>Running the handler again\<close>

text \<open>
  C2. When the pending list is empty, a call of the guarded handler returns the state it
  was given: tables, version classes, transaction class and trace (so every call to the
  model and relationship builders) are as before.
\<close>

theorem configure_again_changes_nothing:
  assumes "pending_classes s = []"
  shows "orchestrator w (Suc n) s = Returned s"
proof (cases "in_handler s")
  case True
  then show ?thesis by (rule orchestrator_nested)
next
  case False
  let ?s = "s\<lparr>in_handler := True\<rparr>"
  have p: "pending_classes ?s = []" using assms by simp
  have bt: "build_tables w ?s = Returned ?s"
    by (simp add: build_tables_def p)
  have tx: "\<And>nested. build_transaction_class w nested ?s = Returned ?s"
    by (simp add: build_transaction_class_def p)
  have mr: "\<And>nested. models_and_relationships w nested ?s = Returned ?s"
    using p by (simp add: models_and_relationships_def build_models_def build_relationships_def
        finishing_passes_def enable_active_history_def create_column_aliases_def
        create_association_proxies_def create_hybrid_properties_def)
  have "configure_versioned_classes w (orchestrator w n) ?s = Returned ?s"
    using p by (simp add: configure_versioned_classes_phases bt tx mr)
  with False show ?thesis by (simp add: prevent_reentry_def)
qed

theorem configure_again_changes_nothing_witness:
  "pending_classes article_state = [] \<and>
   orchestrator blog_world (Suc 0) article_state = Returned article_state"
proof -
  have p: "pending_classes article_state = []"
    by (simp add: article_state_def fresh_state_def)
  from configure_again_changes_nothing[OF p, of blog_world 0] p show ?thesis by simp
qed

section \<open>The reentry flag after an exception\<close>

lemma reentry_flag_cleared_on_return:
  assumes "\<not> in_handler s" and "prevent_reentry handler s = Returned s'"
  shows "\<not> in_handler s'"
  using assms by (auto simp: prevent_reentry_def split: outcome.splits)

text \<open>
  C4 fails on the code. The wrapper clears the flag only after the handler has returned:
  when the table builder raises in the first pass, the exception leaves the wrapper with
  the flag still set, and the next top-level call, here with a table builder that works,
  is dropped as if it were nested; \<open>Article\<close> stays pending and nothing is built.
\<close>

theorem reentry_flag_stuck_after_error:
  "orchestrator broken_world (Suc (Suc 0)) (fresh_state [0]) =
     Raised ConfigurationError ((fresh_state [0])\<lparr>in_handler := True\<rparr>) \<and>
   orchestrator blog_world (Suc (Suc 0)) ((fresh_state [0])\<lparr>in_handler := True\<rparr>) =
     Returned ((fresh_state [0])\<lparr>in_handler := True\<rparr>)"
proof -
  have "build_tables broken_world ((fresh_state [0])\<lparr>in_handler := True\<rparr>) =
      Raised ConfigurationError ((fresh_state [0])\<lparr>in_handler := True\<rparr>)"
    by (simp add: build_tables_def build_tables_body_def broken_world_def blog_world_def
        fresh_state_def dict_keys_def)
  then have "configure_versioned_classes broken_world Returned ((fresh_state [0])\<lparr>in_handler := True\<rparr>) =
      Raised ConfigurationError ((fresh_state [0])\<lparr>in_handler := True\<rparr>)"
    by (simp add: configure_versioned_classes_phases fresh_state_def)
  then have "orchestrator broken_world (Suc (Suc 0)) (fresh_state [0]) =
      Raised ConfigurationError ((fresh_state [0])\<lparr>in_handler := True\<rparr>)"
    by (simp only: orchestrator_collapse) (simp add: prevent_reentry_def fresh_state_def)
  moreover have "orchestrator blog_world (Suc (Suc 0)) ((fresh_state [0])\<lparr>in_handler := True\<rparr>) =
      Returned ((fresh_state [0])\<lparr>in_handler := True\<rparr>)"
    by (rule orchestrator_nested) simp
  ultimately show ?thesis by simp
qed

section \<open>A whole pass of the handler\<close>

lemma for_each_flag:
  assumes "\<And>x s s1. body x s = Returned s1 \<Longrightarrow>
      body x (s\<lparr>in_handler := b\<rparr>) = Returned (s1\<lparr>in_handler := b\<rparr>)"
    and "for_each body xs s = Returned s'"
  shows "for_each body xs (s\<lparr>in_handler := b\<rparr>) = Returned (s'\<lparr>in_handler := b\<rparr>)"
  using assms(2)
proof (induction xs arbitrary: s)
  case Nil
  then show ?case by simp
next
  case (Cons x xs)
  from Cons.prems obtain s1 where b1: "body x s = Returned s1"
    and r: "for_each body xs s1 = Returned s'"
    by (cases "body x s") simp_all
  from assms(1)[OF b1] Cons.IH[OF r] show ?case by simp
qed

lemma build_tables_flag:
  assumes "build_tables w s = Returned s1"
  shows "build_tables w (s\<lparr>in_handler := b\<rparr>) = Returned (s1\<lparr>in_handler := b\<rparr>)"
proof -
  have body: "\<And>c s s1. build_tables_body w c s = Returned s1 \<Longrightarrow>
      build_tables_body w c (s\<lparr>in_handler := b\<rparr>) = Returned (s1\<lparr>in_handler := b\<rparr>)"
    by (auto simp: build_tables_body_def split: if_splits option.splits sum.splits)
  from for_each_flag[of "build_tables_body w" b, OF body] assms show ?thesis
    by (simp add: build_tables_def)
qed

lemma create_transaction_model_update:
  "create_transaction_model s =
     s\<lparr>transaction_cls :=
         (case transaction_cls s of
            Some tx \<Rightarrow> Some tx
          | None \<Rightarrow> map_option TransactionEntity (declarative_base s))\<rparr>"
  by (simp add: create_transaction_model_def split: option.splits)

lemma build_transaction_class_flag:
  assumes "build_transaction_class w Returned s1 = Returned s2"
  shows "build_transaction_class w Returned (s1\<lparr>in_handler := b\<rparr>) =
      Returned (s2\<lparr>in_handler := b\<rparr>)"
  using assms
  by (auto simp: build_transaction_class_Returned create_transaction_model_update
      split: list.splits sum.splits option.splits)

lemma build_tables_fields:
  assumes "build_tables w s = Returned s1"
  shows "pending_classes s1 = pending_classes s" "version_class_map s1 = version_class_map s"
    "transaction_cls s1 = transaction_cls s" "declarative_base s1 = declarative_base s"
    "options_versioning s1 = options_versioning s"
    "options_create_models s1 = options_create_models s" "trace s1 = trace s"
  using arg_cong[OF build_tables_frame[OF assms], of pending_classes]
    arg_cong[OF build_tables_frame[OF assms], of version_class_map]
    arg_cong[OF build_tables_frame[OF assms], of transaction_cls]
    arg_cong[OF build_tables_frame[OF assms], of declarative_base]
    arg_cong[OF build_tables_frame[OF assms], of options_versioning]
    arg_cong[OF build_tables_frame[OF assms], of options_create_models]
    arg_cong[OF build_tables_frame[OF assms], of trace]
  by simp_all

lemma create_transaction_model_fields:
  "pending_classes (create_transaction_model s) = pending_classes s"
  "tables (create_transaction_model s) = tables s"
  "version_class_map (create_transaction_model s) = version_class_map s"
  "options_versioning (create_transaction_model s) = options_versioning s"
  "options_create_models (create_transaction_model s) = options_create_models s"
  by (simp_all add: create_transaction_model_def split: option.splits)

lemma build_transaction_class_fields:
  assumes "build_transaction_class w Returned s1 = Returned s2"
  shows "pending_classes s2 = pending_classes s1" "tables s2 = tables s1"
    "version_class_map s2 = version_class_map s1"
    "options_versioning s2 = options_versioning s1"
    "options_create_models s2 = options_create_models s1"
    "trace s2 = trace s1 @ (if pending_classes s1 = [] then [] else [AfterBuildTxClass])"
  using assms
  by (auto simp: build_transaction_class_Returned create_transaction_model_fields
      split: list.splits sum.splits)

lemma pass_up_to_transaction_class:
  assumes nf: "\<not> in_handler s" and v: "options_versioning s"
    and bt: "build_tables w s = Returned s1"
    and tx: "build_transaction_class w Returned s1 = Returned s2"
  shows "orchestrator w (Suc (Suc n)) s =
     (if \<not> options_create_models s then Returned (s2\<lparr>pending_classes := []\<rparr>)
      else (case models_and_relationships w Returned (s2\<lparr>in_handler := True\<rparr>) of
              Returned s' \<Rightarrow> Returned (s'\<lparr>in_handler := False\<rparr>)
            | Raised e s' \<Rightarrow> Raised e s'
            | OutOfFuel \<Rightarrow> OutOfFuel))"
proof -
  let ?t = "s\<lparr>in_handler := True\<rparr>" and ?t1 = "s1\<lparr>in_handler := True\<rparr>"
    and ?t2 = "s2\<lparr>in_handler := True\<rparr>"
  note f1 = build_tables_fields[OF bt]
  note f2 = build_transaction_class_fields[OF tx]
  have h2: "\<not> in_handler s2"
    using nf build_tables_in_handler[OF bt] build_transaction_class_in_handler[OF tx] by simp
  have bt': "build_tables w ?t = Returned ?t1" by (rule build_tables_flag[OF bt])
  have tx': "build_transaction_class w Returned ?t1 = Returned ?t2"
    by (rule build_transaction_class_flag[OF tx])
  show ?thesis
  proof (cases "options_create_models s")
    case False
    then have "configure_versioned_classes w Returned ?t = Returned (?t2\<lparr>pending_classes := []\<rparr>)"
      using v by (simp add: configure_versioned_classes_phases bt' tx' f1 f2)
    moreover have "?t2\<lparr>pending_classes := [], in_handler := False\<rparr> = s2\<lparr>pending_classes := []\<rparr>"
      using h2 by simp
    ultimately show ?thesis
      using nf False by (simp add: orchestrator_collapse prevent_reentry_def del: orchestrator.simps)
  next
    case True
    then have "configure_versioned_classes w Returned ?t = models_and_relationships w Returned ?t2"
      using v by (simp add: configure_versioned_classes_phases bt' tx' f1 f2)
    then show ?thesis
      using nf True
      by (simp add: orchestrator_collapse prevent_reentry_def del: orchestrator.simps)
  qed
qed

lemma pass_after_transaction_class:
  assumes nf: "\<not> in_handler s" and v: "options_versioning s"
    and cm: "options_create_models s"
    and bt: "build_tables w s = Returned s1"
    and tx: "build_transaction_class w Returned s1 = Returned s2"
    and rel: "\<forall>c\<in>set (pending_classes s). manager_option w c ''versioning'' \<longrightarrow>
      c \<in> set (dict_keys (registered_models w s2 (pending_classes s) (version_class_map s))) \<or>
      filter (\<lambda>k. k \<noteq> ''versions'') (map prop_key (iterate_properties w c)) = []"
    and ap: "\<forall>c\<in>set (pending_classes s).
      c \<in> set (dict_keys (registered_models w s2 (pending_classes s) (version_class_map s))) \<or>
      get_association_proxies w c = []"
    and hp: "\<forall>c\<in>set (pending_classes s).
      c \<in> set (dict_keys (registered_models w s2 (pending_classes s) (version_class_map s))) \<or>
      get_hybrid_properties w c = []"
  shows "orchestrator w (Suc (Suc n)) s =
     Returned (s2\<lparr>pending_classes := [],
        version_class_map := registered_models w s2 (pending_classes s) (version_class_map s),
        trace := trace s2 @
          concat (map (model_calls w s2) (pending_classes s)) @
          (if pending_classes s = [] then [] else [AfterBuildModels]) @
          concat (map (relationship_calls w []) (pending_classes s)) @
          concat (map (active_history_calls w) (pending_classes s)) @
          concat (map (column_alias_calls w
            (registered_models w s2 (pending_classes s) (version_class_map s))) (pending_classes s)) @
          concat (map (association_proxy_calls w) (pending_classes s)) @
          concat (map (hybrid_property_calls w) (pending_classes s))\<rparr>)"
proof -
  let ?t2 = "s2\<lparr>in_handler := True\<rparr>"
  note f1 = build_tables_fields[OF bt]
  note f2 = build_transaction_class_fields[OF tx]
  have h2: "\<not> in_handler s2"
    using nf build_tables_in_handler[OF bt] build_transaction_class_in_handler[OF tx] by simp
  have p2: "pending_classes ?t2 = pending_classes s" and v2: "version_class_map ?t2 = version_class_map s"
    by (simp_all add: f1 f2)
  have mc: "model_calls w ?t2 = model_calls w s2"
    by (rule ext) (rule model_calls_cong, simp_all)
  have rm: "\<And>cs m. registered_models w ?t2 cs m = registered_models w s2 cs m"
    by (rule registered_models_cong) simp_all
  have "models_and_relationships w Returned ?t2 =
     Returned (?t2\<lparr>pending_classes := [],
        version_class_map := registered_models w ?t2 (pending_classes ?t2) (version_class_map ?t2),
        trace := trace ?t2 @
          concat (map (model_calls w ?t2) (pending_classes ?t2)) @
          (if pending_classes ?t2 = [] then [] else [AfterBuildModels]) @
          concat (map (relationship_calls w []) (pending_classes ?t2)) @
          concat (map (active_history_calls w) (pending_classes ?t2)) @
          concat (map (column_alias_calls w
            (registered_models w ?t2 (pending_classes ?t2) (version_class_map ?t2)))
              (pending_classes ?t2)) @
          concat (map (association_proxy_calls w) (pending_classes ?t2)) @
          concat (map (hybrid_property_calls w) (pending_classes ?t2))\<rparr>)"
    apply (rule models_and_relationships_Returned)
      apply (simp_all only: p2 v2 rm)
      apply (rule rel)
     apply (rule ap)
    apply (rule hp)
    done
  then show ?thesis
    using cm h2
    by (simp add: pass_up_to_transaction_class[OF nf v bt tx] mc rm f1 f2
        del: orchestrator.simps)
qed

section \<open>When the pass completes\<close>

lemma build_tables_returns:
  assumes "\<forall>c\<in>set (pending_classes s). \<forall>inherited.
      \<exists>t. table_builder w (table_of w c) c inherited = Inr t"
  shows "\<exists>s1. build_tables w s = Returned s1"
  unfolding build_tables_def
proof (rule for_each_returns)
  fix c and u :: state assume "c \<in> set (pending_classes s)"
  with assms have ok: "\<And>inherited. \<exists>t. table_builder w (table_of w c) c inherited = Inr t"
    by blast
  show "\<exists>s'. build_tables_body w c u = Returned s'"
  proof (cases "find (\<lambda>klass. issubclass w c klass \<and> table_of w c = table_of w klass)
      (dict_keys (tables u))")
    case None
    from ok[of None] obtain t where "table_builder w (table_of w c) c None = Inr t" ..
    with None show ?thesis by (simp add: build_tables_body_def)
  next
    case (Some k)
    from ok[of "map_of (tables u) k"] obtain t where
      "table_builder w (table_of w c) c (map_of (tables u) k) = Inr t" ..
    with Some show ?thesis by (simp add: build_tables_body_def)
  qed
qed

lemma build_transaction_class_returns:
  assumes "\<forall>c rest. pending_classes s = c # rest \<longrightarrow> (\<exists>b. get_declarative_base w c = Inr b)"
  shows "\<exists>s2. build_transaction_class w Returned s = Returned s2"
proof (cases "pending_classes s")
  case Nil
  then show ?thesis by (simp add: build_transaction_class_Returned)
next
  case (Cons c rest)
  with assms obtain b where "get_declarative_base w c = Inr b" by blast
  with Cons show ?thesis by (simp add: build_transaction_class_Returned)
qed

lemma build_tables_body_keys:
  assumes "build_tables_body w c s = Returned s'"
  shows "set (dict_keys (tables s)) \<subseteq> set (dict_keys (tables s'))"
    and "manager_option w c ''versioning'' \<Longrightarrow> manager_option w c ''create_tables'' \<Longrightarrow>
      \<exists>k\<in>set (dict_keys (tables s')). issubclass w c k"
proof -
  show "set (dict_keys (tables s)) \<subseteq> set (dict_keys (tables s'))"
    using assms
    by (auto simp: build_tables_body_def dict_keys_update
        split: if_splits option.splits sum.splits)
next
  assume vc: "manager_option w c ''versioning''" "manager_option w c ''create_tables''"
  show "\<exists>k\<in>set (dict_keys (tables s')). issubclass w c k"
  proof (cases "find (\<lambda>klass. issubclass w c klass \<and> table_of w c = table_of w klass)
      (dict_keys (tables s))")
    case None
    with assms vc have "c \<in> set (dict_keys (tables s'))"
      by (auto simp: build_tables_body_def dict_keys_update split: sum.splits)
    with issubclass_refl[of w c] show ?thesis by blast
  next
    case (Some k)
    from find_Some_mem[OF Some] find_Some_holds[OF Some]
    have k: "k \<in> set (dict_keys (tables s))" "issubclass w c k" by simp_all
    from Some assms vc have "set (dict_keys (tables s)) \<subseteq> set (dict_keys (tables s'))"
      by (auto simp: build_tables_body_def dict_keys_update split: sum.splits)
    with k show ?thesis by blast
  qed
qed

lemma build_tables_loop_keys:
  assumes "for_each (build_tables_body w) cs s = Returned s'"
  shows "set (dict_keys (tables s)) \<subseteq> set (dict_keys (tables s')) \<and>
    (\<forall>c\<in>set cs. manager_option w c ''versioning'' \<and> manager_option w c ''create_tables'' \<longrightarrow>
        (\<exists>k\<in>set (dict_keys (tables s')). issubclass w c k))"
  using assms
proof (induction cs arbitrary: s)
  case Nil
  then show ?case by simp
next
  case (Cons c cs)
  from Cons.prems obtain s1 where b: "build_tables_body w c s = Returned s1"
    and r: "for_each (build_tables_body w) cs s1 = Returned s'"
    by (cases "build_tables_body w c s") simp_all
  from Cons.IH[OF r] have sub1: "set (dict_keys (tables s1)) \<subseteq> set (dict_keys (tables s'))"
    and rest: "\<forall>d\<in>set cs. manager_option w d ''versioning'' \<and> manager_option w d ''create_tables'' \<longrightarrow>
        (\<exists>k\<in>set (dict_keys (tables s')). issubclass w d k)"
    by simp_all
  note sub0 = build_tables_body_keys(1)[OF b]
  have head: "manager_option w c ''versioning'' \<and> manager_option w c ''create_tables'' \<longrightarrow>
      (\<exists>k\<in>set (dict_keys (tables s')). issubclass w c k)"
  proof
    assume "manager_option w c ''versioning'' \<and> manager_option w c ''create_tables''"
    then obtain k where "k \<in> set (dict_keys (tables s1))" "issubclass w c k"
      using build_tables_body_keys(2)[OF b] by blast
    with sub1 show "\<exists>k\<in>set (dict_keys (tables s')). issubclass w c k" by blast
  qed
  from sub0 sub1 head rest show ?case by simp
qed

lemma closest_matching_table_found:
  assumes "k \<in> set (dict_keys (tables s))" and "issubclass w c k"
  shows "\<exists>t. closest_matching_table w s c = Some t"
proof (cases "c \<in> set (dict_keys (tables s))")
  case True
  from map_of_dict_keys[OF True] True show ?thesis
    by (simp add: closest_matching_table_find)
next
  case False
  let ?P = "\<lambda>d. d \<in> set (dict_keys (tables s)) \<and> issubclass w c d"
  from assms have "k \<in> set (getmro w c)" "?P k" by (simp_all add: issubclass_def)
  then have "find ?P (getmro w c) \<noteq> None" by (auto simp: find_None_iff)
  then obtain d where d: "find ?P (getmro w c) = Some d" by blast
  from find_Some_holds[OF d] have "d \<in> set (dict_keys (tables s))" by simp
  from map_of_dict_keys[OF this] obtain t where "map_of (tables s) d = Some t" ..
  with d False show ?thesis by (simp add: closest_matching_table_find)
qed

lemma registered_models_keys:
  "set (dict_keys (registered_models w s cs m)) =
     set (dict_keys m) \<union>
     {c \<in> set cs. manager_option w c ''versioning'' \<and> closest_matching_table w s c \<noteq> None}"
proof (induction cs arbitrary: m)
  case Nil
  show ?case by simp
next
  case (Cons c cs)
  show ?case
  proof (cases "manager_option w c ''versioning''")
    case False
    then show ?thesis by (auto simp: Cons.IH)
  next
    case True
    show ?thesis
    proof (cases "closest_matching_table w s c")
      case None
      with True show ?thesis by (auto simp: Cons.IH)
    next
      case (Some t)
      with True show ?thesis by (auto simp: Cons.IH dict_keys_update)
    qed
  qed
qed

section \<open>The transaction class\<close>

text \<open>
  C6, as the code has it. Inside a running pass, \<^verbatim>\<open>build_transaction_class\<close> does nothing
  when no class is pending. Otherwise, on every pass, it stores the declarative base of
  the first pending class, calls the manager's \<^verbatim>\<open>create_transaction_model\<close>, which
  constructs the transaction class from that base only when there is none and leaves an
  existing one as it is, and fires the \<^verbatim>\<open>after_build_tx_class\<close> notification, whether or
  not a transaction class existed.
\<close>

theorem build_transaction_class_every_pass:
  assumes "in_handler s"
  shows "build_transaction_class w (orchestrator w (Suc n)) s =
     (case pending_classes s of
        [] \<Rightarrow> Returned s
      | c # _ \<Rightarrow>
          (case get_declarative_base w c of
             Inl e \<Rightarrow> Raised e s
           | Inr b \<Rightarrow>
               Returned (s\<lparr>declarative_base := Some b,
                 transaction_cls :=
                   (case transaction_cls s of
                      Some tx \<Rightarrow> Some tx
                    | None \<Rightarrow> Some (TransactionEntity b)),
                 trace := trace s @ [AfterBuildTxClass]\<rparr>)))"
proof -
  have "build_transaction_class w (orchestrator w (Suc n)) s = build_transaction_class w Returned s"
    using assms by (intro build_transaction_class_guarded orchestrator_nested)
  then show ?thesis
    by (simp add: build_transaction_class_Returned create_transaction_model_update
        split: list.splits sum.splits option.splits)
qed

text \<open>The first pass over \<open>BlogArticle\<close> and \<open>Article\<close>: the base of \<open>BlogArticle\<close> is taken.\<close>

theorem build_transaction_class_every_pass_witness:
  "in_handler ((fresh_state [1, 0])\<lparr>in_handler := True\<rparr>) \<and>
   build_transaction_class blog_world (orchestrator blog_world (Suc 0))
       ((fresh_state [1, 0])\<lparr>in_handler := True\<rparr>) =
     Returned ((fresh_state [1, 0])\<lparr>in_handler := True, declarative_base := Some 9,
       transaction_cls := Some (TransactionEntity 9), trace := [AfterBuildTxClass]\<rparr>)"
proof -
  have h: "in_handler ((fresh_state [1, 0])\<lparr>in_handler := True\<rparr>)" by simp
  from build_transaction_class_every_pass[OF h, of blog_world 0] show ?thesis
    by (simp add: fresh_state_def blog_world_def)
qed

text \<open>
  The step is not a no-op when a transaction class exists: in a second pass with \<open>User\<close>
  pending the transaction class stays, and the notification is fired once more.
\<close>

theorem build_transaction_class_not_noop_counterexample:
  "transaction_cls second_pass_state = Some (TransactionEntity 9) \<and>
   build_transaction_class blog_world (orchestrator blog_world (Suc 0)) second_pass_state =
     Returned (second_pass_state\<lparr>trace := [AfterBuildTxClass]\<rparr>) \<and>
   build_transaction_class blog_world (orchestrator blog_world (Suc 0)) second_pass_state \<noteq>
     Returned second_pass_state"
  by (simp add: second_pass_state_def fresh_state_def blog_world_def build_transaction_class_def
      create_transaction_model_def call_out_def prevent_reentry_def)

section \<open>A pass without model creation\<close>



section \<open>Which properties reach the relationship builder\<close>






section \<open>Models first, relationships after\<close>

lemma filter_concat_map_empty:
  "(\<And>x. filter P (f x) = []) \<Longrightarrow> filter P (concat (map f xs)) = []"
  by (induction xs) simp_all

lemma list_all_concat_map:
  "(\<And>x. list_all P (f x)) \<Longrightarrow> list_all P (concat (map f xs))"
  by (induction xs) simp_all

lemma count_concat_distinct:
  assumes "distinct xs"
    and "\<And>x. length (filter P (f x)) = (if x = c \<and> Q then 1 else 0)"
  shows "length (filter P (concat (map f xs))) = (if c \<in> set xs \<and> Q then 1 else 0)"
  using assms(1)
proof (induction xs)
  case Nil
  show ?case by simp
next
  case (Cons x xs)
  then show ?case using assms(2)[of x] by auto
qed

lemma model_calls_cases:
  "model_calls w s c = [] \<or>
   (\<exists>t. model_calls w s c =
      [ModelBuilderCall (pending_classes s) c t (transaction_cls s),
       AfterVersionClassBuilt c (VersionClass c t (transaction_cls s))])"
proof (cases "manager_option w c ''versioning''")
  case False
  then have "model_calls w s c = []" unfolding model_calls_def by simp
  then show ?thesis ..
next
  case True
  show ?thesis
  proof (cases "closest_matching_table w s c")
    case None
    with True have "model_calls w s c = []" unfolding model_calls_def by simp
    then show ?thesis ..
  next
    case (Some t)
    with True have "model_calls w s c =
      [ModelBuilderCall (pending_classes s) c t (transaction_cls s),
       AfterVersionClassBuilt c (VersionClass c t (transaction_cls s))]"
      unfolding model_calls_def by simp
    then show ?thesis by blast
  qed
qed

lemma model_calls_nonempty:
  "model_calls w s c \<noteq> [] \<longleftrightarrow>
     manager_option w c ''versioning'' \<and> closest_matching_table w s c \<noteq> None"
  by (simp add: model_calls_def split: option.splits)

lemma count_notified_model_calls:
  "length (filter (\<lambda>e. notified_class e = Some c) (model_calls w s c')) =
     (if c' = c \<and> model_calls w s c \<noteq> [] then 1 else 0)"
  using model_calls_cases[of w s c'] by auto

lemma count_built_model_calls:
  "length (filter (\<lambda>e. built_class e = Some c) (model_calls w s c')) =
     (if c' = c \<and> model_calls w s c \<noteq> [] then 1 else 0)"
  using model_calls_cases[of w s c'] by auto

lemma pending_seen_model_calls:
  "e \<in> set (model_calls w s c) \<Longrightarrow> pending_seen e = Some p \<Longrightarrow> p = pending_classes s"
  using model_calls_cases[of w s c] by auto

lemma pending_seen_relationship_calls:
  "e \<in> set (relationship_calls w pending c) \<Longrightarrow> pending_seen e = Some pending"
  by (auto simp: relationship_calls_def split: if_splits)

lemma pending_seen_other_calls:
  "e \<in> set (active_history_calls w c) \<Longrightarrow> pending_seen e = None"
  "e \<in> set (column_alias_calls w vcm c) \<Longrightarrow> pending_seen e = None"
  "e \<in> set (association_proxy_calls w c) \<Longrightarrow> pending_seen e = None"
  "e \<in> set (hybrid_property_calls w c) \<Longrightarrow> pending_seen e = None"
  by (auto simp: active_history_calls_def column_alias_calls_def
      association_proxy_calls_def hybrid_property_calls_def split: option.splits)

lemma not_notified_other_calls:
  "filter (\<lambda>e. notified_class e = Some c) (relationship_calls w pending c') = []"
  "filter (\<lambda>e. notified_class e = Some c) (active_history_calls w c') = []"
  "filter (\<lambda>e. notified_class e = Some c) (column_alias_calls w vcm c') = []"
  "filter (\<lambda>e. notified_class e = Some c) (association_proxy_calls w c') = []"
  "filter (\<lambda>e. notified_class e = Some c) (hybrid_property_calls w c') = []"
  by (auto simp: relationship_calls_def active_history_calls_def column_alias_calls_def
      association_proxy_calls_def hybrid_property_calls_def filter_empty_conv
      split: option.splits)

lemma not_built_other_calls:
  "filter (\<lambda>e. built_class e = Some c) (relationship_calls w pending c') = []"
  "filter (\<lambda>e. built_class e = Some c) (active_history_calls w c') = []"
  "filter (\<lambda>e. built_class e = Some c) (column_alias_calls w vcm c') = []"
  "filter (\<lambda>e. built_class e = Some c) (association_proxy_calls w c') = []"
  "filter (\<lambda>e. built_class e = Some c) (hybrid_property_calls w c') = []"
  by (auto simp: relationship_calls_def active_history_calls_def column_alias_calls_def
      association_proxy_calls_def hybrid_property_calls_def filter_empty_conv
      split: option.splits)

lemma model_calls_no_relationship:
  "list_all (\<lambda>e. \<not> relationship_event e) (model_calls w s c)"
  by (simp add: model_calls_def split: option.splits)

lemma later_calls_no_model:
  "list_all (\<lambda>e. \<not> model_event e) (relationship_calls w pending c)"
  "list_all (\<lambda>e. \<not> model_event e) (active_history_calls w c)"
  "list_all (\<lambda>e. \<not> model_event e) (column_alias_calls w vcm c)"
  "list_all (\<lambda>e. \<not> model_event e) (association_proxy_calls w c)"
  "list_all (\<lambda>e. \<not> model_event e) (hybrid_property_calls w c)"
  by (auto simp: relationship_calls_def active_history_calls_def column_alias_calls_def
      association_proxy_calls_def hybrid_property_calls_def list_all_iff
      split: option.splits)

lemma phases_in_order:
  assumes a: "list_all (\<lambda>e. \<not> Q e) A" and b: "list_all (\<lambda>e. \<not> P e) B"
    and i: "i < length (A @ B)" and j: "j < length (A @ B)"
    and p: "P ((A @ B) ! i)" and q: "Q ((A @ B) ! j)"
  shows "i < j"
proof -
  have "i < length A"
  proof (rule ccontr)
    assume "\<not> i < length A"
    with i have "(A @ B) ! i \<in> set B" by (simp add: nth_append)
    with b p show False by (simp add: list_all_iff)
  qed
  moreover have "\<not> j < length A"
  proof
    assume "j < length A"
    then have "(A @ B) ! j \<in> set A" by (simp add: nth_append)
    with a q show False by (simp add: list_all_iff)
  qed
  ultimately show ?thesis by simp
qed

lemma pending_classes_resolve:
  assumes bt: "build_tables w s = Returned s1"
    and tx: "build_transaction_class w Returned s1 = Returned s2"
    and c: "c \<in> set (pending_classes s)" "manager_option w c ''versioning''"
      "manager_option w c ''create_tables'' \<or> (\<exists>k\<in>set (dict_keys (tables s)). issubclass w c k)"
  shows "model_calls w s2 c \<noteq> []"
    and "c \<in> set (dict_keys (registered_models w s2 (pending_classes s) m))"
proof -
  from build_tables_loop_keys[OF bt[unfolded build_tables_def]]
  have sub: "set (dict_keys (tables s)) \<subseteq> set (dict_keys (tables s1))"
    and new: "\<forall>c\<in>set (pending_classes s).
        manager_option w c ''versioning'' \<and> manager_option w c ''create_tables'' \<longrightarrow>
        (\<exists>k\<in>set (dict_keys (tables s1)). issubclass w c k)"
    by simp_all
  have "\<exists>k\<in>set (dict_keys (tables s1)). issubclass w c k"
  proof (cases "manager_option w c ''create_tables''")
    case True
    with new c(1,2) show ?thesis by blast
  next
    case False
    with c(3) obtain k where "k \<in> set (dict_keys (tables s))" "issubclass w c k" by blast
    with sub show ?thesis by blast
  qed
  then obtain k where "k \<in> set (dict_keys (tables s2))" "issubclass w c k"
    using build_transaction_class_fields(2)[OF tx] by auto
  from closest_matching_table_found[OF this] have r: "closest_matching_table w s2 c \<noteq> None"
    by auto
  with c(2) show "model_calls w s2 c \<noteq> []" by (simp add: model_calls_nonempty)
  from r c(1,2) show "c \<in> set (dict_keys (registered_models w s2 (pending_classes s) m))"
    by (simp add: registered_models_keys)
qed

lemma complete_pass:
  assumes nf: "\<not> in_handler s" and v: "options_versioning s"
    and cm: "options_create_models s"
    and tb: "\<forall>c\<in>set (pending_classes s). \<forall>inherited.
      \<exists>t. table_builder w (table_of w c) c inherited = Inr t"
    and db: "\<forall>c rest. pending_classes s = c # rest \<longrightarrow> (\<exists>b. get_declarative_base w c = Inr b)"
    and ok: "\<forall>c\<in>set (pending_classes s).
      (manager_option w c ''versioning'' \<and>
         (manager_option w c ''create_tables'' \<or>
          (\<exists>k\<in>set (dict_keys (tables s)). issubclass w c k))) \<or>
      ((manager_option w c ''versioning'' \<longrightarrow>
          filter (\<lambda>k. k \<noteq> ''versions'') (map prop_key (iterate_properties w c)) = []) \<and>
       get_association_proxies w c = [] \<and> get_hybrid_properties w c = [])"
  shows "\<exists>s1 s2. build_tables w s = Returned s1 \<and>
     build_transaction_class w Returned s1 = Returned s2 \<and>
     orchestrator w (Suc (Suc n)) s =
       Returned (s2\<lparr>pending_classes := [],
        version_class_map := registered_models w s2 (pending_classes s) (version_class_map s),
        trace := trace s2 @
          concat (map (model_calls w s2) (pending_classes s)) @
          (if pending_classes s = [] then [] else [AfterBuildModels]) @
          concat (map (relationship_calls w []) (pending_classes s)) @
          concat (map (active_history_calls w) (pending_classes s)) @
          concat (map (column_alias_calls w
            (registered_models w s2 (pending_classes s) (version_class_map s))) (pending_classes s)) @
          concat (map (association_proxy_calls w) (pending_classes s)) @
          concat (map (hybrid_property_calls w) (pending_classes s))\<rparr>)"
proof -
  from build_tables_returns[OF tb] obtain s1 where bt: "build_tables w s = Returned s1" ..
  note f1 = build_tables_fields[OF bt]
  from db f1(1) have "\<forall>c rest. pending_classes s1 = c # rest \<longrightarrow>
      (\<exists>b. get_declarative_base w c = Inr b)" by simp
  from build_transaction_class_returns[OF this] obtain s2 where
    tx: "build_transaction_class w Returned s1 = Returned s2" ..
  let ?vcm = "registered_models w s2 (pending_classes s) (version_class_map s)"
  have key: "c \<in> set (dict_keys ?vcm) \<or>
      ((manager_option w c ''versioning'' \<longrightarrow>
          filter (\<lambda>k. k \<noteq> ''versions'') (map prop_key (iterate_properties w c)) = []) \<and>
       get_association_proxies w c = [] \<and> get_hybrid_properties w c = [])"
    if c: "c \<in> set (pending_classes s)" for c
  proof (cases "manager_option w c ''versioning'' \<and>
         (manager_option w c ''create_tables'' \<or>
          (\<exists>k\<in>set (dict_keys (tables s)). issubclass w c k))")
    case True
    then have "c \<in> set (dict_keys ?vcm)"
      by (intro pending_classes_resolve(2)[OF bt tx c]) simp_all
    then show ?thesis ..
  next
    case False
    with ok c show ?thesis by blast
  qed
  have rel: "\<forall>c\<in>set (pending_classes s). manager_option w c ''versioning'' \<longrightarrow>
      c \<in> set (dict_keys ?vcm) \<or>
      filter (\<lambda>k. k \<noteq> ''versions'') (map prop_key (iterate_properties w c)) = []"
    using key by blast
  have ap: "\<forall>c\<in>set (pending_classes s). c \<in> set (dict_keys ?vcm) \<or>
      get_association_proxies w c = []"
    using key by blast
  have hp: "\<forall>c\<in>set (pending_classes s). c \<in> set (dict_keys ?vcm) \<or>
      get_hybrid_properties w c = []"
    using key by blast
  note run = pass_after_transaction_class[OF nf v cm bt tx rel ap hp, of n]
  show ?thesis
    apply (rule exI[of _ s1], rule exI[of _ s2])
    apply (intro conjI)
      apply (rule bt)
     apply (rule tx)
    apply (rule run)
    done
qed

lemma pending_seen_in_pass:
  assumes "e \<in> set (concat (map (model_calls w s2) ps) @
       (if ps = [] then [] else [AfterBuildModels]) @
       concat (map (relationship_calls w []) ps) @
       concat (map (active_history_calls w) ps) @
       concat (map (column_alias_calls w vcm) ps) @
       concat (map (association_proxy_calls w) ps) @
       concat (map (hybrid_property_calls w) ps))"
    and "pending_seen e = Some p"
  shows "p = (if relationship_event e then [] else pending_classes s2)"
proof -
  have "e \<in> set (concat (map (model_calls w s2) ps)) \<or>
      e \<in> set (if ps = [] then [] else [AfterBuildModels]) \<or>
      e \<in> set (concat (map (relationship_calls w []) ps)) \<or>
      e \<in> set (concat (map (active_history_calls w) ps)) \<or>
      e \<in> set (concat (map (column_alias_calls w vcm) ps)) \<or>
      e \<in> set (concat (map (association_proxy_calls w) ps)) \<or>
      e \<in> set (concat (map (hybrid_property_calls w) ps))"
    using assms(1) by (simp only: set_append Un_iff)
  moreover have "e = AfterBuildModels"
    if "e \<in> set (if ps = [] then [] else [AfterBuildModels])"
    using that by (simp split: if_splits)
  ultimately consider (m) "e \<in> set (concat (map (model_calls w s2) ps))"
    | (a) "e = AfterBuildModels"
    | (r) "e \<in> set (concat (map (relationship_calls w []) ps))"
    | (h) "e \<in> set (concat (map (active_history_calls w) ps))"
    | (c) "e \<in> set (concat (map (column_alias_calls w vcm) ps))"
    | (x) "e \<in> set (concat (map (association_proxy_calls w) ps))"
    | (y) "e \<in> set (concat (map (hybrid_property_calls w) ps))"
    by blast
  then show ?thesis
  proof cases
    case m
    then obtain c where e: "e \<in> set (model_calls w s2 c)" by auto
    from model_calls_no_relationship[of w s2 c] e have "\<not> relationship_event e"
      by (simp add: list_all_iff)
    with pending_seen_model_calls[OF e assms(2)] show ?thesis by simp
  next
    case a
    with assms(2) show ?thesis by simp
  next
    case r
    then obtain c where e: "e \<in> set (relationship_calls w [] c)" by auto
    then have "relationship_event e" by (auto simp: relationship_calls_def split: if_splits)
    with pending_seen_relationship_calls[OF e] assms(2) show ?thesis by simp
  next
    case h
    then obtain c where "e \<in> set (active_history_calls w c)" by auto
    from pending_seen_other_calls(1)[OF this] assms(2) show ?thesis by simp
  next
    case c
    then obtain d where "e \<in> set (column_alias_calls w vcm d)" by auto
    from pending_seen_other_calls(2)[OF this] assms(2) show ?thesis by simp
  next
    case x
    then obtain c where "e \<in> set (association_proxy_calls w c)" by auto
    from pending_seen_other_calls(3)[OF this] assms(2) show ?thesis by simp
  next
    case y
    then obtain c where "e \<in> set (hybrid_property_calls w c)" by auto
    from pending_seen_other_calls(4)[OF this] assms(2) show ?thesis by simp
  qed
qed

text \<open>
  C9. Take a top-level pass with versioning and \<^verbatim>\<open>create_models\<close> enabled, over a pending
  list without repetitions, whose table builder and declarative base lookup do not
  raise, and in which every pending class either has versioning enabled and gets a
  version table (table creation enabled, or a superclass already in the tables
  dictionary), or needs no version class: no association proxy, no hybrid property and,
  if versioning is enabled, no mapped property besides \<^verbatim>\<open>versions\<close>. The pass returns with
  an empty pending list, and what it called after the transaction step is, in this
  order: for each pending class with versioning and a resolvable table the model builder
  and directly after it the \<^verbatim>\<open>after_version_class_built\<close> notification of that class;
  \<^verbatim>\<open>after_build_models\<close>; then the relationship builder over the same list of classes, the
  copy; then the finishing passes. Each such class is notified exactly once, no other
  class is, and every call that constructs or announces a version class comes before
  every call of the relationship builder. Every call of the model builder found the
  pending list still complete, and every call of the relationship builder found it
  empty: the list is copied and cleared after the last model is built and before the
  first relationship is derived.
\<close>

theorem models_built_before_relationships:
  assumes nf: "\<not> in_handler s" and v: "options_versioning s"
    and cm: "options_create_models s"
    and tb: "\<forall>c\<in>set (pending_classes s). \<forall>inherited.
      \<exists>t. table_builder w (table_of w c) c inherited = Inr t"
    and db: "\<forall>c rest. pending_classes s = c # rest \<longrightarrow> (\<exists>b. get_declarative_base w c = Inr b)"
    and ok: "\<forall>c\<in>set (pending_classes s).
      (manager_option w c ''versioning'' \<and>
         (manager_option w c ''create_tables'' \<or>
          (\<exists>k\<in>set (dict_keys (tables s)). issubclass w c k))) \<or>
      ((manager_option w c ''versioning'' \<longrightarrow>
          filter (\<lambda>k. k \<noteq> ''versions'') (map prop_key (iterate_properties w c)) = []) \<and>
       get_association_proxies w c = [] \<and> get_hybrid_properties w c = [])"
    and d: "distinct (pending_classes s)"
  shows "\<exists>s1 s2 s'. build_tables w s = Returned s1 \<and>
     build_transaction_class w Returned s1 = Returned s2 \<and>
     orchestrator w (Suc (Suc n)) s = Returned s' \<and>
     pending_classes s' = [] \<and>
     trace s' = trace s2 @
       concat (map (model_calls w s2) (pending_classes s)) @
       (if pending_classes s = [] then [] else [AfterBuildModels]) @
       concat (map (relationship_calls w []) (pending_classes s)) @
       concat (map (active_history_calls w) (pending_classes s)) @
       concat (map (column_alias_calls w (version_class_map s')) (pending_classes s)) @
       concat (map (association_proxy_calls w) (pending_classes s)) @
       concat (map (hybrid_property_calls w) (pending_classes s)) \<and>
     (\<forall>c. length (filter (\<lambda>e. notified_class e = Some c)
                   (drop (length (trace s2)) (trace s'))) =
          (if c \<in> set (pending_classes s) \<and> model_calls w s2 c \<noteq> [] then 1 else 0)) \<and>
     (\<forall>i j. i < length (trace s') \<longrightarrow> j < length (trace s') \<longrightarrow>
        length (trace s2) \<le> i \<longrightarrow> length (trace s2) \<le> j \<longrightarrow>
        model_event (trace s' ! i) \<longrightarrow> relationship_event (trace s' ! j) \<longrightarrow> i < j) \<and>
     (\<forall>e\<in>set (drop (length (trace s2)) (trace s')). \<forall>p. pending_seen e = Some p \<longrightarrow>
        p = (if relationship_event e then [] else pending_classes s))"
proof -
  let ?ps = "pending_classes s"
  from complete_pass[OF nf v cm tb db ok, of n] obtain s1 s2 where
    bt: "build_tables w s = Returned s1"
    and tx: "build_transaction_class w Returned s1 = Returned s2"
    and run0: "orchestrator w (Suc (Suc n)) s =
       Returned (s2\<lparr>pending_classes := [],
        version_class_map := registered_models w s2 ?ps (version_class_map s),
        trace := trace s2 @
          concat (map (model_calls w s2) ?ps) @
          (if ?ps = [] then [] else [AfterBuildModels]) @
          concat (map (relationship_calls w []) ?ps) @
          concat (map (active_history_calls w) ?ps) @
          concat (map (column_alias_calls w
            (registered_models w s2 ?ps (version_class_map s))) ?ps) @
          concat (map (association_proxy_calls w) ?ps) @
          concat (map (hybrid_property_calls w) ?ps)\<rparr>)"
    by blast
  have p2: "pending_classes s2 = ?ps"
    using build_tables_fields(1)[OF bt] build_transaction_class_fields(1)[OF tx] by simp
  let ?vcm = "registered_models w s2 ?ps (version_class_map s)"
  let ?A = "concat (map (model_calls w s2) ?ps) @ (if ?ps = [] then [] else [AfterBuildModels])"
  let ?B = "concat (map (relationship_calls w []) ?ps) @
       concat (map (active_history_calls w) ?ps) @
       concat (map (column_alias_calls w ?vcm) ?ps) @
       concat (map (association_proxy_calls w) ?ps) @
       concat (map (hybrid_property_calls w) ?ps)"
  define s' where "s' = s2\<lparr>pending_classes := [], version_class_map := ?vcm,
      trace := trace s2 @ ?A @ ?B\<rparr>"
  have run: "orchestrator w (Suc (Suc n)) s = Returned s'"
    using run0 by (simp add: s'_def del: orchestrator.simps)
  have p': "pending_classes s' = []" and vcm': "version_class_map s' = ?vcm"
    and tr: "trace s' = trace s2 @ ?A @ ?B"
    by (simp_all add: s'_def)
  have new: "drop (length (trace s2)) (trace s') = ?A @ ?B" by (simp add: tr)
  have count: "length (filter (\<lambda>e. notified_class e = Some c) (?A @ ?B)) =
      (if c \<in> set ?ps \<and> model_calls w s2 c \<noteq> [] then 1 else 0)" for c
  proof -
    have "length (filter (\<lambda>e. notified_class e = Some c) (concat (map (model_calls w s2) ?ps))) =
        (if c \<in> set ?ps \<and> model_calls w s2 c \<noteq> [] then 1 else 0)"
      by (rule count_concat_distinct[OF d]) (rule count_notified_model_calls)
    then show ?thesis
      by (simp add: filter_concat_map_empty not_notified_other_calls)
  qed
  have a: "list_all (\<lambda>e. \<not> relationship_event e) ?A"
    by (simp add: list_all_concat_map model_calls_no_relationship)
  have b: "list_all (\<lambda>e. \<not> model_event e) ?B"
    by (simp add: list_all_concat_map later_calls_no_model)
  have order: "i < j"
    if "i < length (trace s')" "j < length (trace s')" "length (trace s2) \<le> i"
      "length (trace s2) \<le> j" "model_event (trace s' ! i)" "relationship_event (trace s' ! j)"
    for i j
  proof -
    let ?n = "length (trace s2)"
    from that have i: "i - ?n < length (?A @ ?B)" and j: "j - ?n < length (?A @ ?B)"
      by (simp_all add: tr)
    from that have ei: "trace s' ! i = (?A @ ?B) ! (i - ?n)"
      and ej: "trace s' ! j = (?A @ ?B) ! (j - ?n)"
      by (simp_all add: tr nth_append)
    from that ei ej have "model_event ((?A @ ?B) ! (i - ?n))"
      "relationship_event ((?A @ ?B) ! (j - ?n))" by simp_all
    from phases_in_order[OF a b i j this] that show ?thesis by simp
  qed
  have seen: "p = (if relationship_event e then [] else pending_classes s)"
    if "e \<in> set (?A @ ?B)" "pending_seen e = Some p" for e p
    using pending_seen_in_pass[of e w s2 ?ps ?vcm p] that by (simp add: p2)
  show ?thesis
    apply (rule exI[of _ s1], rule exI[of _ s2], rule exI[of _ s'])
    apply (intro conjI allI impI ballI)
    apply (rule bt)
    apply (rule tx)
    apply (rule run)
    apply (rule p')
    apply (simp only: tr vcm' append_assoc)
    apply (simp only: new count)
    apply (rule order; assumption)
    apply (simp only: new)
    apply (rule seen; assumption)
    done
qed

text \<open>
  The pass over \<open>Article\<close> and \<open>NewsArticle\<close>, every collaborator re-entering: both
  version classes are built and announced, with both classes still pending, before the
  first call of the relationship builder, which finds the pending list empty.
\<close>

theorem models_built_before_relationships_witness:
  "\<exists>s'. orchestrator blog_world (Suc (Suc 0)) (fresh_state [0, 3]) = Returned s' \<and>
     pending_classes s' = [] \<and>
     trace s' =
       [AfterBuildTxClass,
        ModelBuilderCall [0, 3] 0 article_table (Some (TransactionEntity 9)),
        AfterVersionClassBuilt 0 (VersionClass 0 article_table (Some (TransactionEntity 9))),
        ModelBuilderCall [0, 3] 3 article_table (Some (TransactionEntity 9)),
        AfterVersionClassBuilt 3 (VersionClass 3 article_table (Some (TransactionEntity 9))),
        AfterBuildModels,
        RelationshipBuilderCall [] 0 ''id'', RelationshipBuilderCall [] 0 ''transaction'',
        RelationshipBuilderCall [] 3 ''id'', RelationshipBuilderCall [] 3 ''transaction'',
        ActiveHistorySet 0 ''id'', ActiveHistorySet 0 ''transaction'',
        ActiveHistorySet 0 ''versions'',
        ActiveHistorySet 3 ''id'', ActiveHistorySet 3 ''transaction'',
        ActiveHistorySet 3 ''versions'']"
proof -
  let ?s = "fresh_state [0, 3]"
  have nf: "\<not> in_handler ?s" and v: "options_versioning ?s" and cm: "options_create_models ?s"
    and d: "distinct (pending_classes ?s)"
    by (simp_all add: fresh_state_def)
  have tb: "\<forall>c\<in>set (pending_classes ?s). \<forall>inherited.
      \<exists>t. table_builder blog_world (table_of blog_world c) c inherited = Inr t"
    by (simp add: blog_world_def)
  have db: "\<forall>c rest. pending_classes ?s = c # rest \<longrightarrow>
      (\<exists>b. get_declarative_base blog_world c = Inr b)"
    by (simp add: blog_world_def)
  have ok: "\<forall>c\<in>set (pending_classes ?s).
      (manager_option blog_world c ''versioning'' \<and>
         (manager_option blog_world c ''create_tables'' \<or>
          (\<exists>k\<in>set (dict_keys (tables ?s)). issubclass blog_world c k))) \<or>
      ((manager_option blog_world c ''versioning'' \<longrightarrow>
          filter (\<lambda>k. k \<noteq> ''versions'') (map prop_key (iterate_properties blog_world c)) = []) \<and>
       get_association_proxies blog_world c = [] \<and> get_hybrid_properties blog_world c = [])"
    by (simp add: blog_world_def)
  from models_built_before_relationships[OF nf v cm tb db ok d, of 0] obtain s1 s2 s' where
    bt: "build_tables blog_world ?s = Returned s1"
    and tx: "build_transaction_class blog_world Returned s1 = Returned s2"
    and run: "orchestrator blog_world (Suc (Suc 0)) ?s = Returned s'"
    and p: "pending_classes s' = []"
    and tr: "trace s' = trace s2 @
       concat (map (model_calls blog_world s2) (pending_classes ?s)) @
       (if pending_classes ?s = [] then [] else [AfterBuildModels]) @
       concat (map (relationship_calls blog_world []) (pending_classes ?s)) @
       concat (map (active_history_calls blog_world) (pending_classes ?s)) @
       concat (map (column_alias_calls blog_world (version_class_map s')) (pending_classes ?s)) @
       concat (map (association_proxy_calls blog_world) (pending_classes ?s)) @
       concat (map (hybrid_property_calls blog_world) (pending_classes ?s))"
    by blast
  have "build_tables blog_world ?s = Returned (?s\<lparr>tables := [(0, article_table)]\<rparr>)"
    by (simp add: build_tables_def build_tables_body_def fresh_state_def blog_world_def
        issubclass_def getmro_def dict_keys_def article_table_def)
  with bt have s1: "s1 = ?s\<lparr>tables := [(0, article_table)]\<rparr>" by simp
  have "build_transaction_class blog_world Returned s1 =
      Returned (s1\<lparr>declarative_base := Some 9, transaction_cls := Some (TransactionEntity 9),
        trace := [AfterBuildTxClass]\<rparr>)"
    by (simp add: s1 build_transaction_class_Returned create_transaction_model_update
        fresh_state_def blog_world_def)
  with tx have s2: "s2 = s1\<lparr>declarative_base := Some 9,
        transaction_cls := Some (TransactionEntity 9), trace := [AfterBuildTxClass]\<rparr>" by simp
  have ps: "pending_classes ?s = [0, 3]" by (simp add: fresh_state_def)
  have t2: "trace s2 = [AfterBuildTxClass]" by (simp add: s2)
  have m0: "model_calls blog_world s2 0 =
      [ModelBuilderCall [0, 3] 0 article_table (Some (TransactionEntity 9)),
       AfterVersionClassBuilt 0 (VersionClass 0 article_table (Some (TransactionEntity 9)))]"
    by (simp add: model_calls_def closest_matching_table_def s2 s1 fresh_state_def
        blog_world_def dict_keys_def)
  have m1: "model_calls blog_world s2 3 =
      [ModelBuilderCall [0, 3] 3 article_table (Some (TransactionEntity 9)),
       AfterVersionClassBuilt 3 (VersionClass 3 article_table (Some (TransactionEntity 9)))]"
    by (simp add: model_calls_def closest_matching_table_def s2 s1 fresh_state_def
        blog_world_def dict_keys_def issubclass_def getmro_def)
  have rc: "relationship_calls blog_world [] 0 =
      [RelationshipBuilderCall [] 0 ''id'', RelationshipBuilderCall [] 0 ''transaction'']"
    "relationship_calls blog_world [] 3 =
      [RelationshipBuilderCall [] 3 ''id'', RelationshipBuilderCall [] 3 ''transaction'']"
    by (simp_all add: relationship_calls_def blog_world_def)
  have ah: "active_history_calls blog_world 0 =
      [ActiveHistorySet 0 ''id'', ActiveHistorySet 0 ''transaction'', ActiveHistorySet 0 ''versions'']"
    "active_history_calls blog_world 3 =
      [ActiveHistorySet 3 ''id'', ActiveHistorySet 3 ''transaction'', ActiveHistorySet 3 ''versions'']"
    by (simp_all add: active_history_calls_def blog_world_def)
  have ca: "\<And>vcm c. column_alias_calls blog_world vcm c = []"
    by (simp add: column_alias_calls_def blog_world_def split: option.split)
  have ap: "\<And>c. association_proxy_calls blog_world c = []"
    and hp: "\<And>c. hybrid_property_calls blog_world c = []"
    by (simp_all add: association_proxy_calls_def hybrid_property_calls_def blog_world_def)
  from run p tr show ?thesis
    by (simp add: ps t2 m0 m1 rc ah ca ap hp del: orchestrator.simps)
qed

section \<open>A nested call of the handler\<close>

text \<open>
  C3. A call of the guarded handler that arrives while the flag is set returns at once
  and leaves the whole state as it was, so it builds no version class; the outer call
  equals the handler body in which every nested call returns the state unchanged, and
  its outcome is the outcome in a world where no collaborator triggers the handler
  again. The outer call is not dropped and runs its own pass to the end: when the pass
  is one that completes (versioning and \<^verbatim>\<open>create_models\<close> enabled, a pending list without
  repetitions, the table builder and the declarative base lookup not raising, every
  pending class with a version table or in need of no version class), it returns with
  the flag cleared and the pending list empty, the model builder was called at most once
  for any class, and exactly once for every pending class with versioning and a version
  table, which has its version class in the end.
\<close>

theorem nested_invocation_is_dropped:
  assumes nf: "\<not> in_handler s" and v: "options_versioning s"
    and cm: "options_create_models s"
    and tb: "\<forall>c\<in>set (pending_classes s). \<forall>inherited.
      \<exists>t. table_builder w (table_of w c) c inherited = Inr t"
    and db: "\<forall>c rest. pending_classes s = c # rest \<longrightarrow> (\<exists>b. get_declarative_base w c = Inr b)"
    and ok: "\<forall>c\<in>set (pending_classes s).
      (manager_option w c ''versioning'' \<and>
         (manager_option w c ''create_tables'' \<or>
          (\<exists>k\<in>set (dict_keys (tables s)). issubclass w c k))) \<or>
      ((manager_option w c ''versioning'' \<longrightarrow>
          filter (\<lambda>k. k \<noteq> ''versions'') (map prop_key (iterate_properties w c)) = []) \<and>
       get_association_proxies w c = [] \<and> get_hybrid_properties w c = [])"
    and d: "distinct (pending_classes s)"
  shows "(\<forall>u. in_handler u \<longrightarrow> orchestrator w (Suc n) u = Returned u) \<and>
     orchestrator w (Suc (Suc n)) s =
       prevent_reentry (configure_versioned_classes w Returned) s \<and>
     orchestrator w (Suc (Suc n)) s =
       orchestrator (w\<lparr>reenters := (\<lambda>ev. False)\<rparr>) (Suc (Suc n)) s \<and>
     (\<exists>s'. orchestrator w (Suc (Suc n)) s = Returned s' \<and>
        \<not> in_handler s' \<and> pending_classes s' = [] \<and>
        (\<forall>c. length (filter (\<lambda>e. built_class e = Some c)
                      (drop (length (trace s)) (trace s'))) \<le> 1) \<and>
        (\<forall>c\<in>set (pending_classes s).
           manager_option w c ''versioning'' \<and>
           (manager_option w c ''create_tables'' \<or>
            (\<exists>k\<in>set (dict_keys (tables s)). issubclass w c k)) \<longrightarrow>
           length (filter (\<lambda>e. built_class e = Some c)
                     (drop (length (trace s)) (trace s'))) = 1 \<and>
           c \<in> set (dict_keys (version_class_map s'))))"
proof -
  let ?ps = "pending_classes s"
  from complete_pass[OF nf v cm tb db ok, of n] obtain s1 s2 where
    bt: "build_tables w s = Returned s1"
    and tx: "build_transaction_class w Returned s1 = Returned s2"
    and run0: "orchestrator w (Suc (Suc n)) s =
       Returned (s2\<lparr>pending_classes := [],
        version_class_map := registered_models w s2 ?ps (version_class_map s),
        trace := trace s2 @
          concat (map (model_calls w s2) ?ps) @
          (if ?ps = [] then [] else [AfterBuildModels]) @
          concat (map (relationship_calls w []) ?ps) @
          concat (map (active_history_calls w) ?ps) @
          concat (map (column_alias_calls w
            (registered_models w s2 ?ps (version_class_map s))) ?ps) @
          concat (map (association_proxy_calls w) ?ps) @
          concat (map (hybrid_property_calls w) ?ps)\<rparr>)"
    by blast
  let ?vcm = "registered_models w s2 ?ps (version_class_map s)"
  let ?T = "if ?ps = [] then [] else [AfterBuildTxClass]"
  let ?A = "concat (map (model_calls w s2) ?ps) @ (if ?ps = [] then [] else [AfterBuildModels])"
  let ?B = "concat (map (relationship_calls w []) ?ps) @
       concat (map (active_history_calls w) ?ps) @
       concat (map (column_alias_calls w ?vcm) ?ps) @
       concat (map (association_proxy_calls w) ?ps) @
       concat (map (hybrid_property_calls w) ?ps)"
  define s' where "s' = s2\<lparr>pending_classes := [], version_class_map := ?vcm,
      trace := trace s2 @ ?A @ ?B\<rparr>"
  have run: "orchestrator w (Suc (Suc n)) s = Returned s'"
    using run0 by (simp add: s'_def del: orchestrator.simps)
  have t2: "trace s2 = trace s @ ?T"
    using build_tables_fields[OF bt] build_transaction_class_fields(6)[OF tx] by simp
  have h': "\<not> in_handler s'"
    using nf build_tables_in_handler[OF bt] build_transaction_class_in_handler[OF tx]
    by (simp add: s'_def)
  have p': "pending_classes s' = []" and vcm': "version_class_map s' = ?vcm"
    by (simp_all add: s'_def)
  have new: "drop (length (trace s)) (trace s') = ?T @ ?A @ ?B"
    by (simp add: s'_def t2)
  have count: "length (filter (\<lambda>e. built_class e = Some c) (?T @ ?A @ ?B)) =
      (if c \<in> set ?ps \<and> model_calls w s2 c \<noteq> [] then 1 else 0)" for c
  proof -
    have "length (filter (\<lambda>e. built_class e = Some c) (concat (map (model_calls w s2) ?ps))) =
        (if c \<in> set ?ps \<and> model_calls w s2 c \<noteq> [] then 1 else 0)"
      by (rule count_concat_distinct[OF d]) (rule count_built_model_calls)
    then show ?thesis
      by (simp add: filter_concat_map_empty not_built_other_calls)
  qed
  have once: "length (filter (\<lambda>e. built_class e = Some c)
      (drop (length (trace s)) (trace s'))) \<le> 1" for c
    by (simp only: new count) simp
  have built: "length (filter (\<lambda>e. built_class e = Some c)
        (drop (length (trace s)) (trace s'))) = 1 \<and>
      c \<in> set (dict_keys (version_class_map s'))"
    if c: "c \<in> set ?ps" and r: "manager_option w c ''versioning'' \<and>
           (manager_option w c ''create_tables'' \<or>
            (\<exists>k\<in>set (dict_keys (tables s)). issubclass w c k))" for c
  proof -
    from r have rv: "manager_option w c ''versioning''"
      and rt: "manager_option w c ''create_tables'' \<or>
            (\<exists>k\<in>set (dict_keys (tables s)). issubclass w c k)" by simp_all
    note m = pending_classes_resolve[OF bt tx c rv rt]
    from m(1) c have "length (filter (\<lambda>e. built_class e = Some c)
        (drop (length (trace s)) (trace s'))) = 1"
      by (simp only: new count) simp
    moreover from m(2)[of "version_class_map s"]
    have "c \<in> set (dict_keys (version_class_map s'))" by (simp only: vcm')
    ultimately show ?thesis ..
  qed
  have nested: "\<forall>u. in_handler u \<longrightarrow> orchestrator w (Suc n) u = Returned u"
    by (intro allI impI) (rule orchestrator_nested)
  have collapse: "orchestrator w (Suc (Suc n)) s =
      prevent_reentry (configure_versioned_classes w Returned) s"
    by (rule orchestrator_collapse)
  have quiet: "orchestrator w (Suc (Suc n)) s =
      orchestrator (w\<lparr>reenters := (\<lambda>ev. False)\<rparr>) (Suc (Suc n)) s"
    by (simp only: orchestrator_collapse quiet_configure_versioned_classes)
  have outer: "\<exists>s'. orchestrator w (Suc (Suc n)) s = Returned s' \<and>
        \<not> in_handler s' \<and> pending_classes s' = [] \<and>
        (\<forall>c. length (filter (\<lambda>e. built_class e = Some c)
                      (drop (length (trace s)) (trace s'))) \<le> 1) \<and>
        (\<forall>c\<in>set (pending_classes s).
           manager_option w c ''versioning'' \<and>
           (manager_option w c ''create_tables'' \<or>
            (\<exists>k\<in>set (dict_keys (tables s)). issubclass w c k)) \<longrightarrow>
           length (filter (\<lambda>e. built_class e = Some c)
                     (drop (length (trace s)) (trace s'))) = 1 \<and>
           c \<in> set (dict_keys (version_class_map s')))"
    apply (rule exI[of _ s'])
    apply (intro conjI allI ballI impI)
         apply (rule run)
        apply (rule h')
       apply (rule p')
      apply (rule once)
     apply (rule built[THEN conjunct1]; assumption)
    apply (rule built[THEN conjunct2]; assumption)
    done
  from nested collapse quiet outer show ?thesis by (intro conjI)
qed

text \<open>
  In the example every collaborator triggers the handler again. A call with the flag set
  returns the state it was given. The outer pass over \<open>User\<close> and \<open>Article\<close> builds both
  version tables, the transaction class and one version class for each of the two, calls
  the relationship builder for both, and ends with the flag cleared and nothing pending,
  as it does in the world where nothing re-enters.
\<close>

theorem nested_invocation_is_dropped_witness:
  "orchestrator blog_world (Suc 0) ((fresh_state [2, 0])\<lparr>in_handler := True\<rparr>) =
     Returned ((fresh_state [2, 0])\<lparr>in_handler := True\<rparr>) \<and>
   orchestrator blog_world (Suc (Suc 0)) (fresh_state [2, 0]) =
     Returned ((fresh_state [])\<lparr>
       tables := [(2, ShadowTable 1 [''id'', ''transaction_id'', ''operation_type'']),
                  (0, article_table)],
       version_class_map :=
         [(2, VersionClass 2 (ShadowTable 1 [''id'', ''transaction_id'', ''operation_type''])
                (Some (TransactionEntity 9))),
          (0, VersionClass 0 article_table (Some (TransactionEntity 9)))],
       transaction_cls := Some (TransactionEntity 9),
       declarative_base := Some 9,
       trace :=
         [AfterBuildTxClass,
          ModelBuilderCall [2, 0] 2 (ShadowTable 1 [''id'', ''transaction_id'', ''operation_type''])
            (Some (TransactionEntity 9)),
          AfterVersionClassBuilt 2
            (VersionClass 2 (ShadowTable 1 [''id'', ''transaction_id'', ''operation_type''])
               (Some (TransactionEntity 9))),
          ModelBuilderCall [2, 0] 0 article_table (Some (TransactionEntity 9)),
          AfterVersionClassBuilt 0 (VersionClass 0 article_table (Some (TransactionEntity 9))),
          AfterBuildModels,
          RelationshipBuilderCall [] 2 ''id'', RelationshipBuilderCall [] 2 ''transaction'',
          RelationshipBuilderCall [] 0 ''id'', RelationshipBuilderCall [] 0 ''transaction'',
          ActiveHistorySet 2 ''id'', ActiveHistorySet 2 ''transaction'',
          ActiveHistorySet 2 ''versions'',
          ActiveHistorySet 0 ''id'', ActiveHistorySet 0 ''transaction'',
          ActiveHistorySet 0 ''versions'']\<rparr>) \<and>
   orchestrator (blog_world\<lparr>reenters := (\<lambda>ev. False)\<rparr>) (Suc (Suc 0)) (fresh_state [2, 0]) =
     orchestrator blog_world (Suc (Suc 0)) (fresh_state [2, 0])"
proof -
  let ?s = "fresh_state [2, 0]"
  let ?user_table = "ShadowTable 1 [''id'', ''transaction_id'', ''operation_type'']"
  have nf: "\<not> in_handler ?s" and v: "options_versioning ?s" and cm: "options_create_models ?s"
    and d: "distinct (pending_classes ?s)"
    by (simp_all add: fresh_state_def)
  have tb: "\<forall>c\<in>set (pending_classes ?s). \<forall>inherited.
      \<exists>t. table_builder blog_world (table_of blog_world c) c inherited = Inr t"
    by (simp add: blog_world_def)
  have db: "\<forall>c rest. pending_classes ?s = c # rest \<longrightarrow>
      (\<exists>b. get_declarative_base blog_world c = Inr b)"
    by (simp add: blog_world_def)
  have ok: "\<forall>c\<in>set (pending_classes ?s).
      (manager_option blog_world c ''versioning'' \<and>
         (manager_option blog_world c ''create_tables'' \<or>
          (\<exists>k\<in>set (dict_keys (tables ?s)). issubclass blog_world c k))) \<or>
      ((manager_option blog_world c ''versioning'' \<longrightarrow>
          filter (\<lambda>k. k \<noteq> ''versions'') (map prop_key (iterate_properties blog_world c)) = []) \<and>
       get_association_proxies blog_world c = [] \<and> get_hybrid_properties blog_world c = [])"
    by (simp add: blog_world_def)
  note t = nested_invocation_is_dropped[OF nf v cm tb db ok d, of 0]
  have h: "in_handler (?s\<lparr>in_handler := True\<rparr>)" by simp
  from t[THEN conjunct1, THEN spec, of "?s\<lparr>in_handler := True\<rparr>", THEN mp, OF h]
  have nested: "orchestrator blog_world (Suc 0) (?s\<lparr>in_handler := True\<rparr>) =
      Returned (?s\<lparr>in_handler := True\<rparr>)" .
  from t[THEN conjunct2, THEN conjunct2, THEN conjunct1]
  have quiet: "orchestrator (blog_world\<lparr>reenters := (\<lambda>ev. False)\<rparr>) (Suc (Suc 0)) ?s =
      orchestrator blog_world (Suc (Suc 0)) ?s" by (rule sym)
  from complete_pass[OF nf v cm tb db ok, of 0] obtain s1 s2 where
    bt: "build_tables blog_world ?s = Returned s1"
    and tx: "build_transaction_class blog_world Returned s1 = Returned s2"
    and run: "orchestrator blog_world (Suc (Suc 0)) ?s =
       Returned (s2\<lparr>pending_classes := [],
        version_class_map :=
          registered_models blog_world s2 (pending_classes ?s) (version_class_map ?s),
        trace := trace s2 @
          concat (map (model_calls blog_world s2) (pending_classes ?s)) @
          (if pending_classes ?s = [] then [] else [AfterBuildModels]) @
          concat (map (relationship_calls blog_world []) (pending_classes ?s)) @
          concat (map (active_history_calls blog_world) (pending_classes ?s)) @
          concat (map (column_alias_calls blog_world
            (registered_models blog_world s2 (pending_classes ?s) (version_class_map ?s)))
              (pending_classes ?s)) @
          concat (map (association_proxy_calls blog_world) (pending_classes ?s)) @
          concat (map (hybrid_property_calls blog_world) (pending_classes ?s))\<rparr>)"
    by blast
  have "build_tables blog_world ?s =
      Returned (?s\<lparr>tables := [(2, ?user_table), (0, article_table)]\<rparr>)"
    by (simp add: build_tables_def build_tables_body_def fresh_state_def blog_world_def
        issubclass_def getmro_def dict_keys_def article_table_def)
  with bt have s1: "s1 = ?s\<lparr>tables := [(2, ?user_table), (0, article_table)]\<rparr>" by simp
  have "build_transaction_class blog_world Returned s1 =
      Returned (s1\<lparr>declarative_base := Some 9, transaction_cls := Some (TransactionEntity 9),
        trace := [AfterBuildTxClass]\<rparr>)"
    by (simp add: s1 build_transaction_class_Returned create_transaction_model_update
        fresh_state_def blog_world_def)
  with tx have s2: "s2 = s1\<lparr>declarative_base := Some 9,
        transaction_cls := Some (TransactionEntity 9), trace := [AfterBuildTxClass]\<rparr>" by simp
  have ps: "pending_classes ?s = [2, 0]" and vs: "version_class_map ?s = []"
    by (simp_all add: fresh_state_def)
  have c2: "closest_matching_table blog_world s2 2 = Some ?user_table"
    and c0: "closest_matching_table blog_world s2 0 = Some article_table"
    by (simp_all add: closest_matching_table_def s2 s1 fresh_state_def dict_keys_def)
  have x2: "transaction_cls s2 = Some (TransactionEntity 9)" and p2: "pending_classes s2 = [2, 0]"
    by (simp_all add: s2 s1 fresh_state_def)
  have opt: "\<And>c. manager_option blog_world c ''versioning''"
    by (simp add: blog_world_def)
  have m2: "model_calls blog_world s2 2 =
      [ModelBuilderCall [2, 0] 2 ?user_table (Some (TransactionEntity 9)),
       AfterVersionClassBuilt 2 (VersionClass 2 ?user_table (Some (TransactionEntity 9)))]"
    by (simp add: model_calls_def c2 x2 p2 opt)
  have m0: "model_calls blog_world s2 0 =
      [ModelBuilderCall [2, 0] 0 article_table (Some (TransactionEntity 9)),
       AfterVersionClassBuilt 0 (VersionClass 0 article_table (Some (TransactionEntity 9)))]"
    by (simp add: model_calls_def c0 x2 p2 opt)
  have rm: "registered_models blog_world s2 [2, 0] [] =
      [(2, VersionClass 2 ?user_table (Some (TransactionEntity 9))),
       (0, VersionClass 0 article_table (Some (TransactionEntity 9)))]"
    by (simp add: c2 c0 x2 opt)
  have rc: "relationship_calls blog_world [] 2 =
      [RelationshipBuilderCall [] 2 ''id'', RelationshipBuilderCall [] 2 ''transaction'']"
    "relationship_calls blog_world [] 0 =
      [RelationshipBuilderCall [] 0 ''id'', RelationshipBuilderCall [] 0 ''transaction'']"
    by (simp_all add: relationship_calls_def blog_world_def)
  have ah: "active_history_calls blog_world 2 =
      [ActiveHistorySet 2 ''id'', ActiveHistorySet 2 ''transaction'', ActiveHistorySet 2 ''versions'']"
    "active_history_calls blog_world 0 =
      [ActiveHistorySet 0 ''id'', ActiveHistorySet 0 ''transaction'', ActiveHistorySet 0 ''versions'']"
    by (simp_all add: active_history_calls_def blog_world_def)
  have ca: "\<And>vcm c. column_alias_calls blog_world vcm c = []"
    by (simp add: column_alias_calls_def blog_world_def split: option.split)
  have ap: "\<And>c. association_proxy_calls blog_world c = []"
    and hp: "\<And>c. hybrid_property_calls blog_world c = []"
    by (simp_all add: association_proxy_calls_def hybrid_property_calls_def blog_world_def)
  have t2: "trace s2 = [AfterBuildTxClass]" by (simp add: s2)
  have outer: "orchestrator blog_world (Suc (Suc 0)) ?s =
      Returned (s2\<lparr>pending_classes := [],
        version_class_map :=
          [(2, VersionClass 2 ?user_table (Some (TransactionEntity 9))),
           (0, VersionClass 0 article_table (Some (TransactionEntity 9)))],
        trace :=
         [AfterBuildTxClass,
          ModelBuilderCall [2, 0] 2 ?user_table (Some (TransactionEntity 9)),
          AfterVersionClassBuilt 2 (VersionClass 2 ?user_table (Some (TransactionEntity 9))),
          ModelBuilderCall [2, 0] 0 article_table (Some (TransactionEntity 9)),
          AfterVersionClassBuilt 0 (VersionClass 0 article_table (Some (TransactionEntity 9))),
          AfterBuildModels,
          RelationshipBuilderCall [] 2 ''id'', RelationshipBuilderCall [] 2 ''transaction'',
          RelationshipBuilderCall [] 0 ''id'', RelationshipBuilderCall [] 0 ''transaction'',
          ActiveHistorySet 2 ''id'', ActiveHistorySet 2 ''transaction'',
          ActiveHistorySet 2 ''versions'',
          ActiveHistorySet 0 ''id'', ActiveHistorySet 0 ''transaction'',
          ActiveHistorySet 0 ''versions'']\<rparr>)"
    using run[unfolded ps vs rm] by (simp add: t2 m2 m0 rc ah ca ap hp del: orchestrator.simps)
  have final: "s2\<lparr>pending_classes := [],
        version_class_map :=
          [(2, VersionClass 2 ?user_table (Some (TransactionEntity 9))),
           (0, VersionClass 0 article_table (Some (TransactionEntity 9)))],
        trace := tr\<rparr> =
      (fresh_state [])\<lparr>
       tables := [(2, ?user_table), (0, article_table)],
       version_class_map :=
         [(2, VersionClass 2 ?user_table (Some (TransactionEntity 9))),
          (0, VersionClass 0 article_table (Some (TransactionEntity 9)))],
       transaction_cls := Some (TransactionEntity 9),
       declarative_base := Some 9,
       trace := tr\<rparr>" for tr
    by (simp add: s2 s1 fresh_state_def)
  from nested outer[unfolded final] quiet show ?thesis by (intro conjI)
qed

end
